theory Spec2Isabelle
  imports Main "HOL-Library.Sublist" "HOL-Library.Extended_Nat"
begin

section \<open>Repo link resolver: \<open>findProjectsFromPath\<close>\<close>

text \<open>
  The manifest entry of one linked project (interface \<open>RepoProjectConfig\<close>):
  \<^verbatim>\<open>{ id: string; name: string; directory: string }\<close>.
\<close>

record RepoProjectConfig =
  cfg_id :: string
  cfg_name :: string
  directory :: string

text \<open>
  \<^verbatim>\<open>s.split(c)\<close> for a one-character separator: the pieces between the separators,
  one more than there are separators (\<^verbatim>\<open>''.split('/')\<close> is \<^verbatim>\<open>['']\<close>).
\<close>

fun split_on :: "char \<Rightarrow> string \<Rightarrow> string list" where
  "split_on c [] = [[]]"
| "split_on c (x # xs) =
     (if x = c then [] # split_on c xs
      else (case split_on c xs of
              [] \<Rightarrow> [[x]]
            | w # ws \<Rightarrow> (x # w) # ws))"

text \<open>\<^verbatim>\<open>s.startsWith(t)\<close>.\<close>

definition startsWith :: "string \<Rightarrow> string \<Rightarrow> bool" where
  "startsWith s t = prefix t s"

text \<open>
  The comparator
  \<^verbatim>\<open>
  function sortByDirectory(a, b) {
    const aParts = a.directory.split('/');
    const bParts = b.directory.split('/');
    return bParts.length - aParts.length;
  }
  \<close>
\<close>

definition sortByDirectory :: "RepoProjectConfig \<Rightarrow> RepoProjectConfig \<Rightarrow> int" where
  "sortByDirectory a b =
     (let aParts = split_on CHR ''/'' (directory a);
          bParts = split_on CHR ''/'' (directory b)
      in int (length bParts) - int (length aParts))"

text \<open>
  \<^verbatim>\<open>Array.prototype.sort(cmp)\<close> is a stable sort: an element is placed before
  another when the comparator is negative, and elements that compare as equal keep their
  order. Written as the stable insertion sort.
\<close>

fun insert_js :: "('a \<Rightarrow> 'a \<Rightarrow> int) \<Rightarrow> 'a \<Rightarrow> 'a list \<Rightarrow> 'a list" where
  "insert_js cmp x [] = [x]"
| "insert_js cmp x (y # ys) =
     (if cmp x y \<le> 0 then x # y # ys else y # insert_js cmp x ys)"

definition sort_js :: "('a \<Rightarrow> 'a \<Rightarrow> int) \<Rightarrow> 'a list \<Rightarrow> 'a list" where
  "sort_js cmp xs = foldr (insert_js cmp) xs []"

text \<open>
  Reading a property of \<^verbatim>\<open>undefined\<close> throws a \<^verbatim>\<open>TypeError\<close>. A callback of
  \<^verbatim>\<open>Array.prototype.filter\<close> that can throw is a function into \<open>js_error + bool\<close>;
  \<open>filter_js\<close> calls it on every element in order and stops at the first throw.
\<close>

datatype js_error = TypeError

fun filter_js :: "('a \<Rightarrow> js_error + bool) \<Rightarrow> 'a list \<Rightarrow> js_error + 'a list" where
  "filter_js f [] = Inr []"
| "filter_js f (x # xs) =
     (case f x of
        Inl e \<Rightarrow> Inl e
      | Inr b \<Rightarrow>
          (case filter_js f xs of
             Inl e \<Rightarrow> Inl e
           | Inr ys \<Rightarrow> Inr (if b then x # ys else ys)))"

text \<open>
  The callback of the first \<^verbatim>\<open>filter\<close> in \<^verbatim>\<open>findProjectsFromPath\<close>:
  \<^verbatim>\<open>
  project => {
    if (project.directory === '.') return true;
    return (
      normalizedPath === project.directory ||
      normalizedPath.startsWith(`${project.directory}/`)
    );
  }
  \<close>
\<close>

definition matchesPath :: "string \<Rightarrow> RepoProjectConfig \<Rightarrow> bool" where
  "matchesPath normalizedPath project =
     (if directory project = ''.'' then True
      else normalizedPath = directory project
         \<or> startsWith normalizedPath (directory project @ ''/''))"

text \<open>
  \<^verbatim>\<open>
  export function findProjectsFromPath(projects, path) {
    const normalizedPath = normalizePath(path);
    const matches = projects.slice().sort(sortByDirectory).filter(project => ...);
    const firstMatch = matches[0];
    return matches.filter(match => match.directory === firstMatch.directory);
  }
  \<close>
  \<^verbatim>\<open>normalizePath\<close> is imported from another package and is a parameter here.
  \<^verbatim>\<open>matches[0]\<close> is \<^verbatim>\<open>undefined\<close> for an empty array (\<open>None\<close>), and the last
  callback would throw on reading \<^verbatim>\<open>firstMatch.directory\<close> then.
\<close>

definition findProjectsFromPath ::
  "(string \<Rightarrow> string) \<Rightarrow> RepoProjectConfig list \<Rightarrow> string \<Rightarrow> js_error + RepoProjectConfig list" where
  "findProjectsFromPath normalizePath projects path =
     (let normalizedPath = normalizePath path;
          matches = filter (matchesPath normalizedPath) (sort_js sortByDirectory projects);
          firstMatch = (case matches of [] \<Rightarrow> None | m # _ \<Rightarrow> Some m)
      in filter_js
           (\<lambda>match. case firstMatch of
                      None \<Rightarrow> Inl TypeError
                    | Some fm \<Rightarrow> Inr (directory match = directory fm))
           matches)"

text \<open>
  The vocabulary of the properties: the depth of a project is the segment count of its
  directory (the \<^verbatim>\<open>split('/').length\<close> the comparator sorts by); a project is at the
  maximum matching depth when it matches and no matching project of the list is deeper;
  and the list has a tie at the maximum matching depth between a project with
  directory \<^verbatim>\<open>.\<close> and a project with another directory.
\<close>

definition depth :: "RepoProjectConfig \<Rightarrow> nat" where
  "depth q = length (split_on CHR ''/'' (directory q))"

definition at_max_depth :: "string \<Rightarrow> RepoProjectConfig list \<Rightarrow> RepoProjectConfig \<Rightarrow> bool" where
  "at_max_depth p P q =
     (matchesPath p q \<and> (\<forall>r\<in>set P. matchesPath p r \<longrightarrow> depth r \<le> depth q))"

definition max_tie :: "string \<Rightarrow> RepoProjectConfig list \<Rightarrow> bool" where
  "max_tie p P =
     (\<exists>a\<in>set P. \<exists>b\<in>set P. at_max_depth p P a \<and> at_max_depth p P b
        \<and> directory a = ''.'' \<and> directory b \<noteq> ''.'')"

text \<open>Manifest entries used in the examples.\<close>

definition project_at :: "string \<Rightarrow> string \<Rightarrow> RepoProjectConfig" where
  "project_at i d = \<lparr>cfg_id = i, cfg_name = i, directory = d\<rparr>"

section \<open>Repo link resolver: \<open>findRepoRoot\<close>\<close>

text \<open>
  What \<^verbatim>\<open>lstat(path)\<close> does: it resolves with the file's stats, or rejects with code
  \<^verbatim>\<open>ENOENT\<close> (no such file), or rejects with another error (named by its code).
\<close>

datatype lstat_result = Stats | ENOENT | LstatError string

text \<open>
  The collaborators of the walk: \<^verbatim>\<open>homedir()\<close>, \<^verbatim>\<open>path.normalize\<close>, \<^verbatim>\<open>path.join\<close>
  and the file system behind \<^verbatim>\<open>lstat\<close>. They are library functions, taken as they are
  given.
\<close>

record fs_env =
  home :: string
  normalize :: "string \<Rightarrow> string"
  join :: "string \<Rightarrow> string \<Rightarrow> string"
  lstat :: "string \<Rightarrow> lstat_result"

text \<open>
  Modelled from the spec: the constants \<^verbatim>\<open>VERCEL_DIR\<close> and \<^verbatim>\<open>VERCEL_DIR_REPO\<close> are
  imported from \<^verbatim>\<open>../projects/link\<close>, which is not among the sources; the spec names the
  manifest \<^verbatim>\<open><current>/.vercel/repo.json\<close>.
\<close>

definition VERCEL_DIR :: string where
  "VERCEL_DIR = ''.vercel''"

definition VERCEL_DIR_REPO :: string where
  "VERCEL_DIR_REPO = ''repo.json''"

text \<open>
  \<^verbatim>\<open>const REPO_JSON_PATH = join(VERCEL_DIR, VERCEL_DIR_REPO);\<close> and
  \<^verbatim>\<open>const GIT_CONFIG_PATH = normalize('.git/config');\<close>
\<close>

definition REPO_JSON_PATH :: "fs_env \<Rightarrow> string" where
  "REPO_JSON_PATH env = join env VERCEL_DIR VERCEL_DIR_REPO"

definition GIT_CONFIG_PATH :: "fs_env \<Rightarrow> string" where
  "GIT_CONFIG_PATH env = normalize env ''.git/config''"

text \<open>
  One step of the generator
  \<^verbatim>\<open>
  export function* traverseUpDirectories(start) {
    let current = normalize(start);
    while (current) {
      yield current;
      const next = join(current, '..');
      current = next === current ? undefined : next;
    }
  }
  \<close>
  after a \<^verbatim>\<open>yield\<close>: the next value of \<^verbatim>\<open>current\<close>, \<open>None\<close> for \<^verbatim>\<open>undefined\<close>.
\<close>

definition traverseUp_next :: "fs_env \<Rightarrow> string \<Rightarrow> string option" where
  "traverseUp_next env current =
     (let next = join env current ''..''
      in if next = current then None else Some next)"

text \<open>
  The \<^verbatim>\<open>for (const current of traverseUpDirectories(start))\<close> loop of
  \<^verbatim>\<open>findRepoRoot\<close>, from the value \<^verbatim>\<open>current\<close> of the generator on. The generator ends
  when \<^verbatim>\<open>current\<close> is falsy (the empty string or \<^verbatim>\<open>undefined\<close>). The result is
  \<open>Inr (Some dir)\<close> for \<^verbatim>\<open>return current\<close>, \<open>Inr None\<close> for the \<^verbatim>\<open>undefined\<close> the
  function returns after the loop, and \<open>Inl code\<close> when an \<^verbatim>\<open>lstat\<close> error other than
  \<^verbatim>\<open>ENOENT\<close> is rethrown. Nothing bounds the walk, so the loop is a partial function:
  the outer \<open>None\<close> is a walk that never ends.
\<close>

partial_function (option) findRepoRoot_from :: "fs_env \<Rightarrow> string \<Rightarrow> (string + string option) option" where
  "findRepoRoot_from env current =
     (if current = [] then Some (Inr None)
      else if current = home env then Some (Inr None)
      else case lstat env (join env current (REPO_JSON_PATH env)) of
             LstatError code \<Rightarrow> Some (Inl code)
           | Stats \<Rightarrow> Some (Inr (Some current))
           | ENOENT \<Rightarrow>
               (case lstat env (join env current (GIT_CONFIG_PATH env)) of
                  LstatError code \<Rightarrow> Some (Inl code)
                | Stats \<Rightarrow> Some (Inr (Some current))
                | ENOENT \<Rightarrow>
                    (case traverseUp_next env current of
                       None \<Rightarrow> Some (Inr None)
                     | Some next \<Rightarrow> findRepoRoot_from env next)))"

declare findRepoRoot_from.simps [code]

definition findRepoRoot :: "fs_env \<Rightarrow> string \<Rightarrow> (string + string option) option" where
  "findRepoRoot env start = findRepoRoot_from env (normalize env start)"

text \<open>
  The vocabulary of the property: the \<open>k\<close>-th directory of the walk; a directory that
  holds a repo marker the way the loop probes for it (the manifest first, the Git config
  only when the manifest is absent); a directory that holds none; and a directory the
  walk passes through to its parent.
\<close>

definition ancestor :: "fs_env \<Rightarrow> string \<Rightarrow> nat \<Rightarrow> string" where
  "ancestor env start k = ((\<lambda>c. join env c ''..'') ^^ k) (normalize env start)"

definition has_marker :: "fs_env \<Rightarrow> string \<Rightarrow> bool" where
  "has_marker env c =
     (lstat env (join env c (REPO_JSON_PATH env)) = Stats
      \<or> (lstat env (join env c (REPO_JSON_PATH env)) = ENOENT
         \<and> lstat env (join env c (GIT_CONFIG_PATH env)) = Stats))"

definition no_marker :: "fs_env \<Rightarrow> string \<Rightarrow> bool" where
  "no_marker env c =
     (lstat env (join env c (REPO_JSON_PATH env)) = ENOENT
      \<and> lstat env (join env c (GIT_CONFIG_PATH env)) = ENOENT)"

definition passes :: "fs_env \<Rightarrow> string \<Rightarrow> bool" where
  "passes env c =
     (c \<noteq> [] \<and> c \<noteq> home env \<and> no_marker env c \<and> join env c ''..'' \<noteq> c)"

text \<open>
  For the examples, the collaborators as Node has them on POSIX. \<^verbatim>\<open>path.normalize\<close>
  drops empty and \<^verbatim>\<open>.\<close> segments, resolves \<^verbatim>\<open>..\<close> against the segment before it
  (above the root of an absolute path it is dropped, in a relative path it is kept),
  and keeps a leading and a trailing \<^verbatim>\<open>/\<close>; \<^verbatim>\<open>path.join\<close> joins its non-empty
  arguments with \<^verbatim>\<open>/\<close> and normalises the result.
\<close>

fun normalizeString :: "bool \<Rightarrow> string list \<Rightarrow> string list \<Rightarrow> string list" where
  "normalizeString allowAboveRoot res [] = res"
| "normalizeString allowAboveRoot res (seg # segs) =
     (if seg = [] \<or> seg = ''.'' then normalizeString allowAboveRoot res segs
      else if seg = ''..'' then
        (if res \<noteq> [] \<and> last res \<noteq> ''..''
         then normalizeString allowAboveRoot (butlast res) segs
         else if allowAboveRoot then normalizeString allowAboveRoot (res @ [''..'']) segs
         else normalizeString allowAboveRoot res segs)
      else normalizeString allowAboveRoot (res @ [seg]) segs)"

fun join_segments :: "string list \<Rightarrow> string" where
  "join_segments [] = []"
| "join_segments [seg] = seg"
| "join_segments (seg # segs) = seg @ CHR ''/'' # join_segments segs"

definition posix_normalize :: "string \<Rightarrow> string" where
  "posix_normalize p =
     (if p = [] then ''.''
      else
        let isAbsolute = (hd p = CHR ''/'');
            trailingSeparator = (last p = CHR ''/'');
            path = join_segments (normalizeString (\<not> isAbsolute) [] (split_on CHR ''/'' p))
        in if path = [] then (if isAbsolute then ''/'' else if trailingSeparator then ''./'' else ''.'')
           else
             (let path' = (if trailingSeparator then path @ ''/'' else path)
              in if isAbsolute then CHR ''/'' # path' else path'))"

definition posix_join :: "string \<Rightarrow> string \<Rightarrow> string" where
  "posix_join a b =
     (let joined = (if a = [] then b else if b = [] then a else a @ CHR ''/'' # b)
      in if joined = [] then ''.'' else posix_normalize joined)"

text \<open>
  An example file system: the home directory is \<^verbatim>\<open>/home/u\<close>, and the Git configs
  \<^verbatim>\<open>/home/u/proj/.git/config\<close> and \<^verbatim>\<open>/home/u/.git/config\<close> exist (a home directory
  kept under Git). And an empty one.
\<close>

definition example_fs :: fs_env where
  "example_fs =
     \<lparr>home = ''/home/u'',
      normalize = posix_normalize,
      join = posix_join,
      lstat = (\<lambda>p. if p = ''/home/u/proj/.git/config'' \<or> p = ''/home/u/.git/config''
                    then Stats else ENOENT)\<rparr>"

definition empty_fs :: fs_env where
  "empty_fs =
     \<lparr>home = ''/home/u'', normalize = posix_normalize, join = posix_join,
      lstat = (\<lambda>p. ENOENT)\<rparr>"

text \<open>The relative paths \<^verbatim>\<open>..\<close>, \<^verbatim>\<open>../..\<close>, \<^verbatim>\<open>../../..\<close> and so on.\<close>

definition dots :: "nat \<Rightarrow> string" where
  "dots k = join_segments (replicate (Suc k) ''..'')"
section \<open>Repo link resolver: \<open>ensureRepoLink\<close>\<close>

text \<open>
  A remote project as the API lists it (\<^verbatim>\<open>Project\<close>; \<^verbatim>\<open>rootDirectory\<close> may be
  \<^verbatim>\<open>null\<close>), the manifest (\<^verbatim>\<open>RepoProjectsConfig\<close>) and the link (\<^verbatim>\<open>RepoLink\<close>; the
  manifest is absent before the repository is linked).
\<close>

record Project =
  project_id :: string
  project_name :: string
  rootDirectory :: "string option"

record RepoProjectsConfig =
  orgId :: string
  remoteName :: string
  projects :: "RepoProjectConfig list"

record RepoLink =
  rootPath :: string
  repoConfigPath :: string
  repoConfig :: "RepoProjectsConfig option"

text \<open>
  A choice of the checkbox prompt: an existing project, or
  \<^verbatim>\<open>{ newProject: true, rootDirectory, name, framework }\<close>.
\<close>

datatype selection = Existing Project | NewProject string string string

text \<open>
  What the collaborators of \<^verbatim>\<open>ensureRepoLink\<close> answer: \<^verbatim>\<open>getRepoLink(client, cwd)\<close>,
  \<^verbatim>\<open>confirm\<close>, the id of the org of \<^verbatim>\<open>selectOrg\<close>, \<^verbatim>\<open>getRemoteUrls\<close> (remote name and
  URL, \<^verbatim>\<open>undefined\<close> when there is none), the answer of the remote prompt, the chunks of
  \<^verbatim>\<open>client.fetchPaginated\<close>, the map of \<^verbatim>\<open>detectProjects\<close> (root directory and framework;
  empty when detection fails), the answer of the checkbox prompt to its choices,
  \<^verbatim>\<open>createProject(client, name)\<close>, and \<^verbatim>\<open>basename\<close> and \<^verbatim>\<open>normalize\<close> of \<^verbatim>\<open>path\<close>.
\<close>

record link_env =
  repoLink :: "RepoLink option"
  confirm :: bool
  org_id :: string
  remoteUrls :: "(string \<times> string) list option"
  remote_answer :: string
  fetched :: "Project list list"
  detectedProjects :: "(string \<times> string) list"
  selected_answer :: "selection list \<Rightarrow> selection list"
  createProject :: "string \<Rightarrow> Project"
  basename :: "string \<Rightarrow> string"
  path_normalize :: "string \<Rightarrow> string"

text \<open>
  The errors \<^verbatim>\<open>Could not determine Git repository root directory\<close> and
  \<^verbatim>\<open>Could not determine Git remote URLs\<close>; and what a call that does not throw has
  done: the link it returns (\<open>None\<close> for \<^verbatim>\<open>undefined\<close>), the manifest it wrote with
  \<^verbatim>\<open>outputJSON(repoConfigPath, repoConfig)\<close>, and the array \<^verbatim>\<open>selected\<close> after the loop
  that creates the new projects.
\<close>

datatype link_error = NoRepoRoot | NoRemoteUrls

record link_outcome =
  returned :: "RepoLink option"
  written :: "(string \<times> RepoProjectsConfig) option"
  selected_after :: "Project list"

text \<open>\<^verbatim>\<open>project.rootDirectory ?? ''\<close> and \<^verbatim>\<open>project.rootDirectory || ''\<close>\<close>

definition rootDirectory_or_empty :: "Project \<Rightarrow> string" where
  "rootDirectory_or_empty project = (case rootDirectory project of None \<Rightarrow> [] | Some d \<Rightarrow> d)"

text \<open>
  The body of the loop over \<^verbatim>\<open>selected\<close>:
  \<^verbatim>\<open>
  if (!selection.newProject) continue;
  selected[i] = await createProject(client, selection.name);
  \<close>
\<close>

definition create_selected :: "link_env \<Rightarrow> selection \<Rightarrow> Project" where
  "create_selected env selection =
     (case selection of
        Existing project \<Rightarrow> project
      | NewProject dir name framework \<Rightarrow> createProject env name)"

text \<open>
  The entry of the manifest made of a project:
  \<^verbatim>\<open>{ id: project.id, name: project.name, directory: normalize(project.rootDirectory || '') }\<close>
\<close>

definition config_of :: "link_env \<Rightarrow> Project \<Rightarrow> RepoProjectConfig" where
  "config_of env project =
     \<lparr>cfg_id = project_id project, cfg_name = project_name project,
      directory = path_normalize env (rootDirectory_or_empty project)\<rparr>"

text \<open>
  \<^verbatim>\<open>ensureRepoLink(client, cwd, { yes, overwrite })\<close>, in the order of the source: the
  link must exist; when it holds a manifest and \<^verbatim>\<open>overwrite\<close> is not set it is returned
  as it is; otherwise the user confirms (unless \<^verbatim>\<open>yes\<close>), the remote is chosen, the
  projects are fetched, the detected directories of fetched projects are dropped, the
  user selects, the new projects are created, and
  \<^verbatim>\<open>
  repoConfig = {
    orgId: org.id,
    remoteName,
    projects: projects.map(project => { ... }),
  };
  await outputJSON(repoConfigPath, repoConfig, { spaces: 2 });
  \<close>
  is written, where \<^verbatim>\<open>projects\<close> is the array of the fetched projects.
\<close>

definition ensureRepoLink :: "link_env \<Rightarrow> bool \<Rightarrow> bool \<Rightarrow> link_error + link_outcome" where
  "ensureRepoLink env yes overwrite =
     (case repoLink env of
        None \<Rightarrow> Inl NoRepoRoot
      | Some rl \<Rightarrow>
          if overwrite \<or> repoConfig rl = None then
            (let shouldLink = (yes \<or> confirm env)
             in if \<not> shouldLink
                then Inr \<lparr>returned = None, written = None, selected_after = []\<rparr>
                else
                  (case remoteUrls env of
                     None \<Rightarrow> Inl NoRemoteUrls
                   | Some urls \<Rightarrow>
                       (let remoteNames = map fst urls;
                            remote = (if length remoteNames = 1 then hd remoteNames
                                      else remote_answer env);
                            fetched_projects = concat (fetched env);
                            detected =
                              filter (\<lambda>(dir, framework).
                                        dir \<notin> set (map rootDirectory_or_empty fetched_projects))
                                (detectedProjects env);
                            choices =
                              map Existing fetched_projects
                              @ map (\<lambda>(dir, framework). NewProject dir (basename env dir) framework)
                                  detected;
                            selected = selected_answer env choices
                        in if selected = []
                           then Inr \<lparr>returned = None, written = None, selected_after = []\<rparr>
                           else
                             (let selected' = map (create_selected env) selected;
                                  cfg = \<lparr>orgId = org_id env, remoteName = remote,
                                         projects = map (config_of env) fetched_projects\<rparr>
                              in Inr \<lparr>returned = Some (rl\<lparr>repoConfig := Some cfg\<rparr>),
                                      written = Some (repoConfigPath rl, cfg),
                                      selected_after = selected'\<rparr>))))
          else Inr \<lparr>returned = Some rl, written = None, selected_after = []\<rparr>)"

text \<open>
  An example: the remote lists the projects \<^verbatim>\<open>api\<close> and \<^verbatim>\<open>docs\<close>, the directory
  \<^verbatim>\<open>apps/web\<close> is detected, and the user selects \<^verbatim>\<open>api\<close> and the new project \<^verbatim>\<open>web\<close>.
\<close>

definition api_project :: Project where
  "api_project = \<lparr>project_id = ''prj_api'', project_name = ''api'', rootDirectory = Some ''apps/api''\<rparr>"

definition docs_project :: Project where
  "docs_project = \<lparr>project_id = ''prj_docs'', project_name = ''docs'', rootDirectory = Some ''apps/docs''\<rparr>"

definition example_link_env :: link_env where
  "example_link_env =
     \<lparr>repoLink = Some \<lparr>rootPath = ''/repo'', repoConfigPath = ''/repo/.vercel/repo.json'',
                        repoConfig = None\<rparr>,
      confirm = True,
      org_id = ''team_1'',
      remoteUrls = Some [(''origin'', ''https://github.com/acme/repo'')],
      remote_answer = ''origin'',
      fetched = [[api_project, docs_project]],
      detectedProjects = [(''apps/web'', ''nextjs'')],
      selected_answer = (\<lambda>choices. [Existing api_project, NewProject ''apps/web'' ''web'' ''nextjs'']),
      createProject = (\<lambda>name. \<lparr>project_id = ''prj_new'', project_name = name, rootDirectory = None\<rparr>),
      basename = (\<lambda>dir. ''web''),
      path_normalize = (\<lambda>p. if p = [] then ''.'' else p)\<rparr>"

section \<open>Event stream consumer: \<open>printEvents\<close>\<close>

text \<open>
  Errors, by what they are made of: \<^verbatim>\<open>new Error(`Deployment events status ${status}`)\<close>,
  \<^verbatim>\<open>new Error(`Response ${status}`)\<close>, and an error thrown by a collaborator (the fetch,
  the JSON decoder, the stream), named by its message.
\<close>

datatype error = EventsStatus nat | PollStatus nat | Thrown string

text \<open>A decoded record of the feed; \<^verbatim>\<open>const { event } = data\<close> is its discriminator.\<close>

record log_record =
  event :: string
  payload :: string

text \<open>
  The lines the function writes with \<^verbatim>\<open>log\<close>: \<^verbatim>\<open>Success! Build complete\<close>,
  \<^verbatim>\<open>Deployment event stream error: ...\<close> and \<^verbatim>\<open>Deployment state polling error: ...\<close>.
\<close>

datatype log_line = BuildComplete | StreamErrorLine error | PollingErrorLine error

text \<open>
  The options of \<^verbatim>\<open>printEvents\<close> that its control flow reads. \<^verbatim>\<open>printEvent(data,
  callOnOpenOnce)\<close> is the caller's sink: it returns the number of output units it
  produced, and it is handed \<^verbatim>\<open>callOnOpenOnce\<close>, which it may call; the second number
  is how many times it does. \<^verbatim>\<open>findOpts.limit\<close> may be absent.
\<close>

record options =
  mode :: string
  printEvent :: "log_record \<Rightarrow> nat \<times> nat"
  quiet :: bool
  findOpts_limit :: "nat option"

text \<open>\<^verbatim>\<open>const limit = findOpts.limit || Number.POSITIVE_INFINITY\<close>\<close>

definition limit :: "options \<Rightarrow> enat" where
  "limit opts =
     (case findOpts_limit opts of
        None \<Rightarrow> \<infinity>
      | Some n \<Rightarrow> if n = 0 then \<infinity> else enat n)"

text \<open>How the promise of one connection attempt is settled.\<close>

datatype outcome = Resolved | Rejected error

text \<open>
  The variables of one call of \<^verbatim>\<open>printEvents\<close> (\<^verbatim>\<open>onOpenCalled\<close>, \<^verbatim>\<open>counter\<close>, \<^verbatim>\<open>o\<close>),
  what the call has done so far (the calls of \<^verbatim>\<open>onOpen\<close>, the records handed to
  \<^verbatim>\<open>printEvent\<close>, the lines logged, the arguments of \<^verbatim>\<open>eraseLines\<close> written to the
  terminal), and the variables of the connection attempt under way: whether
  \<^verbatim>\<open>stream.end()\<close> has been called or the stream has ended, the pending timer of the
  poller (by its delay in milliseconds), whether a poll is in flight (its timer has
  fired, its fetch has not returned), \<^verbatim>\<open>finishCalled\<close>, and the calls of \<^verbatim>\<open>resolve\<close>
  and \<^verbatim>\<open>reject\<close> in order (the first one settles the promise).
\<close>

record state =
  onOpenCalled :: bool
  counter :: nat
  o_units :: nat
  onOpen_calls :: nat
  printed :: "log_record list"
  logged :: "log_line list"
  erased :: "nat list"
  stream_ended :: bool
  poller :: "nat option"
  polling :: bool
  finishCalled :: bool
  settled :: "outcome list"

text \<open>
  \<^verbatim>\<open>
  function callOnOpenOnce() {
    if (onOpenCalled) return
    onOpenCalled = true
    onOpen()
  }
  \<close>
\<close>

definition callOnOpenOnce :: "state \<Rightarrow> state" where
  "callOnOpenOnce s =
     (if onOpenCalled s then s
      else s\<lparr>onOpenCalled := True, onOpen_calls := Suc (onOpen_calls s)\<rparr>)"

text \<open>
  \<^verbatim>\<open>
  function finish(error) {
    if (finishCalled) return
    finishCalled = true
    callOnOpenOnce()
    if (mode === 'deploy') {
      if (!error) log(chalk`{cyan Success!} Build complete`)
    }
    clearTimeout(poller)
    if (error) { reject(error) } else { resolve() }
  }
  \<close>
\<close>

definition finish :: "options \<Rightarrow> error option \<Rightarrow> state \<Rightarrow> state" where
  "finish opts err s =
     (if finishCalled s then s
      else
        let s1 = callOnOpenOnce (s\<lparr>finishCalled := True\<rparr>);
            s2 = (if mode opts = ''deploy'' \<and> err = None
                  then s1\<lparr>logged := logged s1 @ [BuildComplete]\<rparr> else s1);
            s3 = s2\<lparr>poller := None\<rparr>
        in case err of
             Some e \<Rightarrow> s3\<lparr>settled := settled s3 @ [Rejected e]\<rparr>
           | None \<Rightarrow> s3\<lparr>settled := settled s3 @ [Resolved]\<rparr>)"

text \<open>\<^verbatim>\<open>stream.end()\<close>\<close>

definition stream_end :: "state \<Rightarrow> state" where
  "stream_end s = s\<lparr>stream_ended := True\<rparr>"

text \<open>
  \<^verbatim>\<open>
  const onData = (data) => {
    counter += 1
    if (counter === limit) {
      stream.end()
      finish()
      return
    }
    const { event } = data
    if (event === 'build-complete') {
      if (mode === 'deploy') {
        stream.end()
        finish()
      }
    } else {
      o += printEvent(data, callOnOpenOnce)
    }
  }
  \<close>
\<close>

definition onData :: "options \<Rightarrow> log_record \<Rightarrow> state \<Rightarrow> state" where
  "onData opts data s =
     (let s1 = s\<lparr>counter := counter s + 1\<rparr>
      in if enat (counter s1) = limit opts then finish opts None (stream_end s1)
         else if event data = ''build-complete'' then
           (if mode opts = ''deploy'' then finish opts None (stream_end s1) else s1)
         else
           (let (units, opens) = printEvent opts data;
                s2 = (callOnOpenOnce ^^ opens) s1
            in s2\<lparr>printed := printed s2 @ [data], o_units := o_units s2 + units\<rparr>))"

text \<open>
  \<^verbatim>\<open>
  const onError = (err) => {
    if (finishCalled) return
    o++
    callOnOpenOnce()
    log(`Deployment event stream error: ${err.message}`)
  }
  \<close>
\<close>

definition onError :: "error \<Rightarrow> state \<Rightarrow> state" where
  "onError err s =
     (if finishCalled s then s
      else
        let s1 = callOnOpenOnce (s\<lparr>o_units := o_units s + 1\<rparr>)
        in s1\<lparr>logged := logged s1 @ [StreamErrorLine err]\<rparr>)"

text \<open>
  The poller, \<^verbatim>\<open>poller = (function startPoller() { return setTimeout(async () => {...},
  5000) })()\<close>: \<open>startPoller\<close> sets the timer. What the poll fetch gives back is
  \<open>FetchThrows\<close> when \<^verbatim>\<open>now._fetch(pollUrl)\<close> rejects, or a response with its \<^verbatim>\<open>ok\<close>, its
  \<^verbatim>\<open>status\<close> and what \<^verbatim>\<open>pollRes.json()\<close> gives: an error, or the \<^verbatim>\<open>state\<close> field.
\<close>

definition startPoller :: "state \<Rightarrow> state" where
  "startPoller s = s\<lparr>poller := Some 5000\<rparr>"

datatype poll_result = FetchThrows error | PollResponse bool nat "error + string"

text \<open>
  The body of the timer's callback once the fetch has returned:
  \<^verbatim>\<open>
  try {
    const pollRes = await now._fetch(pollUrl)
    if (!pollRes.ok) throw new Error(`Response ${pollRes.status}`)
    const json = await pollRes.json()
    if (json.state === 'READY') {
      stream.end()
      finish()
      return
    }
    poller = startPoller()
  } catch (error) {
    stream.end()
    finish(error)
  }
  \<close>
\<close>

definition onPoll :: "options \<Rightarrow> poll_result \<Rightarrow> state \<Rightarrow> state" where
  "onPoll opts r s =
     (case r of
        FetchThrows e \<Rightarrow> finish opts (Some e) (stream_end s)
      | PollResponse ok status json \<Rightarrow>
          if \<not> ok then finish opts (Some (PollStatus status)) (stream_end s)
          else (case json of
                  Inl e \<Rightarrow> finish opts (Some e) (stream_end s)
                | Inr st \<Rightarrow>
                    if st = ''READY'' then finish opts None (stream_end s)
                    else startPoller s))"

text \<open>
  What the stream and the timer do during one attempt, as the calls they make of
  the listeners: \<^verbatim>\<open>stream.on('end', finish)\<close>, \<^verbatim>\<open>stream.on('data', onData)\<close>,
  \<^verbatim>\<open>stream.on('error', onError)\<close>, \<^verbatim>\<open>readable.on('error', onError)\<close>, the timer firing
  and the poll fetch returning. Every call of a listener is an input: \<^verbatim>\<open>onData\<close> has no
  guard of its own, so a record that reaches it after \<^verbatim>\<open>stream.end()\<close> (one parsed
  from the same chunk) is handled like any other. A timer that is not pending does not
  fire, and a poll returns only when one is in flight. The \<^verbatim>\<open>end\<close> event calls
  \<^verbatim>\<open>finish\<close> without an argument.
\<close>

datatype stream_input =
  StreamData log_record | StreamEnd | StreamError error | TimerFires | PollReturns poll_result

definition deliver :: "options \<Rightarrow> stream_input \<Rightarrow> state \<Rightarrow> state" where
  "deliver opts i s =
     (case i of
        StreamData d \<Rightarrow> onData opts d s
      | StreamEnd \<Rightarrow> finish opts None (s\<lparr>stream_ended := True\<rparr>)
      | StreamError e \<Rightarrow> onError e s
      | TimerFires \<Rightarrow>
          (case poller s of
             None \<Rightarrow> s
           | Some delay \<Rightarrow> s\<lparr>poller := None, polling := True\<rparr>)
      | PollReturns r \<Rightarrow>
          if polling s then onPoll opts r (s\<lparr>polling := False\<rparr>) else s)"

text \<open>
  What the feed does in one attempt: \<^verbatim>\<open>now._fetch(eventsUrl)\<close> (or \<^verbatim>\<open>readable()\<close>)
  rejects, or the response comes with its \<^verbatim>\<open>ok\<close> and \<^verbatim>\<open>status\<close>, followed by what the
  stream and the timer do.
\<close>

datatype feed = FeedThrows error | FeedResponse bool nat "stream_input list"

text \<open>
  How the function passed to \<^verbatim>\<open>retry\<close> ends: its promise is fulfilled, it is rejected
  (a \<^verbatim>\<open>throw\<close>, or \<^verbatim>\<open>reject(error)\<close>), \<^verbatim>\<open>bail(err)\<close> was called, or the promise is
  never settled.
\<close>

datatype attempt_result = Fulfilled | Failed error | Bailed error | Unsettled

text \<open>The state in which the \<^verbatim>\<open>new Promise\<close> executor of an attempt leaves its variables.\<close>

definition attempt_start :: "options \<Rightarrow> state \<Rightarrow> state" where
  "attempt_start opts s =
     (let s0 = s\<lparr>stream_ended := False, poller := None, polling := False,
                  finishCalled := False, settled := []\<rparr>
      in if mode opts = ''deploy'' then startPoller s0 else s0)"

text \<open>
  The function passed to \<^verbatim>\<open>retry\<close>:
  \<^verbatim>\<open>
  async (bail, attemptNumber) => {
    const eventsRes = await now._fetch(eventsUrl)
    if (eventsRes.ok) {
      const readable = await eventsRes.readable()
      return new Promise((resolve, reject) => { ... })
    } else {
      callOnOpenOnce()
      const err = new Error(`Deployment events status ${eventsRes.status}`)
      if (eventsRes.status < 500) { bail(err) } else { throw err }
    }
  }
  \<close>
\<close>

definition attempt :: "options \<Rightarrow> feed \<Rightarrow> state \<Rightarrow> attempt_result \<times> state" where
  "attempt opts f s =
     (case f of
        FeedThrows e \<Rightarrow> (Failed e, s)
      | FeedResponse ok status inputs \<Rightarrow>
          if ok then
            (let s1 = fold (deliver opts) inputs (attempt_start opts s)
             in (case settled s1 of
                   [] \<Rightarrow> (Unsettled, s1)
                 | Resolved # _ \<Rightarrow> (Fulfilled, s1)
                 | Rejected e # _ \<Rightarrow> (Failed e, s1)))
          else
            (let s1 = callOnOpenOnce s
             in if status < 500 then (Bailed (EventsStatus status), s1)
                else (Failed (EventsStatus status), s1)))"

text \<open>
  \<^verbatim>\<open>
  onRetry: (err) => {
    if (!quiet && o) {
      process.stdout.write(eraseLines(o + 1))
      o = 0
    }
    log(`Deployment state polling error: ${err.message}`)
  }
  \<close>
\<close>

definition onRetry :: "options \<Rightarrow> error \<Rightarrow> state \<Rightarrow> state" where
  "onRetry opts err s =
     (let s1 = (if \<not> quiet opts \<and> o_units s \<noteq> 0
                then s\<lparr>erased := erased s @ [o_units s + 1], o_units := 0\<rparr> else s)
      in s1\<lparr>logged := logged s1 @ [PollingErrorLine err]\<rparr>)"

text \<open>
  Modelled from the spec: the retry wrapper \<^verbatim>\<open>retry(fn, { retries, onRetry })\<close> comes from
  the package \<^verbatim>\<open>async-retry\<close>, which is not among the sources. As the spec has it:
  an attempt that bails is a terminal failure, with no retry; an attempt that fails
  otherwise is retried, after \<^verbatim>\<open>onRetry\<close> has been called with its error, at most
  \<^verbatim>\<open>retries\<close> times; after that the last error goes to the caller. The result is how the
  call ends, the number of attempts made, and the state.
\<close>

datatype call_result = CallResolved | CallRejected error | CallPending

fun retry ::
  "(nat \<Rightarrow> 's \<Rightarrow> attempt_result \<times> 's) \<Rightarrow> nat \<Rightarrow> (error \<Rightarrow> 's \<Rightarrow> 's) \<Rightarrow> nat \<Rightarrow> 's
     \<Rightarrow> call_result \<times> nat \<times> 's" where
  "retry fn 0 on_retry attemptNumber s =
     (case fn attemptNumber s of
        (Fulfilled, s') \<Rightarrow> (CallResolved, attemptNumber, s')
      | (Failed e, s') \<Rightarrow> (CallRejected e, attemptNumber, s')
      | (Bailed e, s') \<Rightarrow> (CallRejected e, attemptNumber, s')
      | (Unsettled, s') \<Rightarrow> (CallPending, attemptNumber, s'))"
| "retry fn (Suc retries) on_retry attemptNumber s =
     (case fn attemptNumber s of
        (Fulfilled, s') \<Rightarrow> (CallResolved, attemptNumber, s')
      | (Failed e, s') \<Rightarrow> retry fn retries on_retry (Suc attemptNumber) (on_retry e s')
      | (Bailed e, s') \<Rightarrow> (CallRejected e, attemptNumber, s')
      | (Unsettled, s') \<Rightarrow> (CallPending, attemptNumber, s'))"

text \<open>
  The state at the start of \<^verbatim>\<open>printEvents\<close> (\<^verbatim>\<open>onOpenCalled = false\<close>, \<^verbatim>\<open>counter = 0\<close>,
  \<^verbatim>\<open>o = 0\<close>), and the call itself: \<^verbatim>\<open>await retry(async (bail, attemptNumber) => {...},
  { retries: 4, onRetry })\<close>, against what the feed does in each attempt (by attempt
  number, from 1).
\<close>

definition initial :: state where
  "initial =
     \<lparr>onOpenCalled = False, counter = 0, o_units = 0, onOpen_calls = 0, printed = [],
      logged = [], erased = [], stream_ended = False, poller = None, polling = False,
      finishCalled = False, settled = []\<rparr>"

definition printEvents :: "options \<Rightarrow> (nat \<Rightarrow> feed) \<Rightarrow> call_result \<times> nat \<times> state" where
  "printEvents opts feeds = retry (\<lambda>n. attempt opts (feeds n)) 4 (onRetry opts) 1 initial"

text \<open>Examples: a sink that prints one unit per record, and some records.\<close>

definition one_line :: "log_record \<Rightarrow> nat \<times> nat" where
  "one_line d = (1, 0)"

definition line :: "string \<Rightarrow> log_record" where
  "line t = \<lparr>event = ''stdout'', payload = t\<rparr>"

definition build_complete :: log_record where
  "build_complete = \<lparr>event = ''build-complete'', payload = []\<rparr>"

definition logs_options :: "nat option \<Rightarrow> options" where
  "logs_options n = \<lparr>mode = ''logs'', printEvent = one_line, quiet = False, findOpts_limit = n\<rparr>"

definition deploy_options :: options where
  "deploy_options =
     \<lparr>mode = ''deploy'', printEvent = one_line, quiet = False, findOpts_limit = None\<rparr>"

definition five_lines :: "stream_input list" where
  "five_lines =
     [StreamData (line ''1''), StreamData (line ''2''), StreamData (line ''3''),
      StreamData (line ''4''), StreamData (line ''5'')]"

text \<open>
  The vocabulary of the properties: \<^verbatim>\<open>onOpen\<close> has been called once if
  \<^verbatim>\<open>onOpenCalled\<close> is set and never otherwise; the promise of the attempt has been
  settled once if \<^verbatim>\<open>finishCalled\<close> is set and never otherwise; the outcome \<^verbatim>\<open>finish\<close>
  settles the promise with; and the error a poll ends with, if it does.
\<close>

definition open_once :: "state \<Rightarrow> bool" where
  "open_once s = (onOpen_calls s = (if onOpenCalled s then 1 else 0))"

definition gate_ok :: "state \<Rightarrow> bool" where
  "gate_ok s = (if finishCalled s then length (settled s) = 1 else settled s = [])"

definition outcome_of :: "error option \<Rightarrow> outcome" where
  "outcome_of err = (case err of None \<Rightarrow> Resolved | Some e \<Rightarrow> Rejected e)"

definition poll_error :: "poll_result \<Rightarrow> error option" where
  "poll_error r =
     (case r of
        FetchThrows e \<Rightarrow> Some e
      | PollResponse ok status json \<Rightarrow>
          if \<not> ok then Some (PollStatus status)
          else (case json of Inl e \<Rightarrow> Some e | Inr st \<Rightarrow> None))"

text \<open>
  Example runs: a \<^verbatim>\<open>deploy\<close> with \<^verbatim>\<open>quiet\<close> set; and a feed whose first attempt
  delivers two records before the poll fails, and whose later attempts end at once.
\<close>

definition quiet_deploy_options :: options where
  "quiet_deploy_options = deploy_options\<lparr>quiet := True\<rparr>"

definition poll_fails_then_ends :: "nat \<Rightarrow> feed" where
  "poll_fails_then_ends n =
     (if n = 1 then
        FeedResponse True 200
          [StreamData (line ''1''), StreamData (line ''2''), TimerFires,
           PollReturns (FetchThrows (Thrown ''poll''))]
      else FeedResponse True 200 [StreamEnd])"

text \<open>A normal record: any record but \<^verbatim>\<open>build-complete\<close>.\<close>

definition normal :: "log_record \<Rightarrow> bool" where
  "normal d = (event d \<noteq> ''build-complete'')"


text \<open>
  The vocabulary of the properties of a whole call: the state in which attempt \<open>n + 1\<close>
  starts when the attempts before it have failed (the state attempt \<open>n\<close> left, after
  \<^verbatim>\<open>onRetry\<close> has run with its error); how attempt \<open>j\<close> ends from there; that attempt
  \<open>j\<close> is made at all (every attempt before it has failed, in whatever way: a fetch
  that throws, a response of 500 or more, a rejected stream promise); and the state
  of attempt \<open>j\<close> after the listener calls \<open>pre\<close>.
\<close>

fun state_before :: "options \<Rightarrow> (nat \<Rightarrow> feed) \<Rightarrow> nat \<Rightarrow> state" where
  "state_before opts feeds 0 = initial"
| "state_before opts feeds (Suc n) =
     (case attempt opts (feeds (Suc n)) (state_before opts feeds n) of
        (Failed e, s') \<Rightarrow> onRetry opts e s'
      | (r, s') \<Rightarrow> s')"

definition outcome_at :: "options \<Rightarrow> (nat \<Rightarrow> feed) \<Rightarrow> nat \<Rightarrow> attempt_result" where
  "outcome_at opts feeds j = fst (attempt opts (feeds j) (state_before opts feeds (j - 1)))"

definition reached :: "options \<Rightarrow> (nat \<Rightarrow> feed) \<Rightarrow> nat \<Rightarrow> bool" where
  "reached opts feeds j = (\<forall>n. 1 \<le> n \<and> n < j \<longrightarrow> (\<exists>e. outcome_at opts feeds n = Failed e))"

definition before_poll :: "options \<Rightarrow> (nat \<Rightarrow> feed) \<Rightarrow> nat \<Rightarrow> stream_input list \<Rightarrow> state" where
  "before_poll opts feeds j pre =
     fold (deliver opts) pre (attempt_start opts (state_before opts feeds (j - 1)))"

text \<open>Example feeds: a fetch that throws before a 404; and a poll that fails in every attempt.\<close>

definition throws_then_404 :: "nat \<Rightarrow> feed" where
  "throws_then_404 n = (if n = 1 then FeedThrows (Thrown ''net'') else FeedResponse False 404 [])"

definition poll_always_fails :: "nat \<Rightarrow> feed" where
  "poll_always_fails n =
     FeedResponse True 200 [TimerFires, PollReturns (FetchThrows (Thrown ''poll''))]"
section \<open>Properties of \<open>findProjectsFromPath\<close>\<close>

lemma length_split_on: "length (split_on c s) = Suc (count_list s c)"
  by (induction s) (auto split: list.splits)

lemma insert_js_insort:
  "insert_js sortByDirectory x ys = insort_key (\<lambda>q. - int (depth q)) x ys"
  by (induction ys) (auto simp: sortByDirectory_def depth_def Let_def)

lemma sort_js_sort_key:
  "sort_js sortByDirectory xs = sort_key (\<lambda>q. - int (depth q)) xs"
  by (induction xs) (auto simp: sort_js_def sort_key_def insert_js_insort)

lemma filter_js_total: "filter_js (\<lambda>x. Inr (Q x)) xs = Inr (filter Q xs)"
  by (induction xs) auto

lemma findProjectsFromPath_eq:
  "findProjectsFromPath nz P p =
     (let M = filter (matchesPath (nz p)) (sort_js sortByDirectory P)
      in Inr (filter (\<lambda>x. directory x = directory (hd M)) M))"
  by (cases "filter (matchesPath (nz p)) (sort_js sortByDirectory P)")
     (simp_all add: findProjectsFromPath_def Let_def filter_js_total)

lemma slash_prefix_count:
  assumes "prefix (a @ ''/'') p" "prefix b p" "length a < length b"
  shows "count_list a CHR ''/'' < count_list b CHR ''/''"
proof -
  from assms(1) obtain r where p: "p = a @ ''/'' @ r" by (auto simp: prefix_def)
  from assms(2) obtain t where p2: "p = b @ t" by (auto simp: prefix_def)
  from p p2 assms(3) obtain z where "b = a @ z" "z \<noteq> []"
    by (metis append_eq_append_conv2 append_eq_conv_conj length_append less_irrefl_nat not_add_less1 append.right_neutral)
  moreover with p p2 have "z @ t = ''/'' @ r" by simp
  ultimately obtain z' where "z = CHR ''/'' # z'" by (cases z) auto
  with \<open>b = a @ z\<close> show ?thesis by simp
qed

lemma same_depth_same_directory:
  assumes ma: "matchesPath p a" and mb: "matchesPath p b"
    and da: "directory a \<noteq> ''.''" and db: "directory b \<noteq> ''.''"
    and d: "depth a = depth b"
  shows "directory a = directory b"
proof (rule ccontr)
  assume ne: "directory a \<noteq> directory b"
  let ?a = "directory a" and ?b = "directory b"
  have pa: "p = ?a \<or> prefix (?a @ ''/'') p" and pb: "p = ?b \<or> prefix (?b @ ''/'') p"
    using ma mb da db by (auto simp: matchesPath_def startsWith_def)
  then have prea: "prefix ?a p" and preb: "prefix ?b p"
    by (auto simp: prefix_def)
  have cnt: "count_list ?a CHR ''/'' = count_list ?b CHR ''/''"
    using d by (simp add: depth_def length_split_on)
  have len: "length ?a \<noteq> length ?b"
    using prea preb ne by (metis prefix_def append_eq_append_conv)
  show False
  proof (cases "length ?a < length ?b")
    case True
    then have "p \<noteq> ?a" using preb by (auto dest: prefix_length_le)
    with pa have "prefix (?a @ ''/'') p" by simp
    from slash_prefix_count[OF this preb True] cnt show False by simp
  next
    case False
    with len have lt: "length ?b < length ?a" by simp
    then have "p \<noteq> ?b" using prea by (auto dest: prefix_length_le)
    with pb have "prefix (?b @ ''/'') p" by simp
    from slash_prefix_count[OF this prea lt] cnt show False by simp
  qed
qed

lemma sorted_desc_depth:
  "sorted (map (\<lambda>q. - int (depth q)) (filter Q (sort_js sortByDirectory P)))"
  by (simp add: sort_js_sort_key sorted_filter)

lemma hd_deepest:
  assumes "filter Q (sort_js sortByDirectory P) = q0 # rest"
  shows "Q q0 \<and> q0 \<in> set P \<and> (\<forall>r\<in>set P. Q r \<longrightarrow> depth r \<le> depth q0)"
proof -
  let ?M = "filter Q (sort_js sortByDirectory P)"
  have mem: "q0 \<in> set ?M" using assms by simp
  then have "Q q0" "q0 \<in> set P" by (auto simp: sort_js_sort_key)
  moreover have "depth r \<le> depth q0" if "r \<in> set P" "Q r" for r
  proof -
    have "r \<in> set ?M" using that by (simp add: sort_js_sort_key)
    moreover have "sorted (map (\<lambda>q. - int (depth q)) (q0 # rest))"
      using sorted_desc_depth[of Q P] assms by simp
    ultimately show ?thesis using assms by auto
  qed
  ultimately show ?thesis by blast
qed

lemma stable_filter:
  assumes "\<And>x. Q x \<Longrightarrow> depth x = k"
  shows "filter Q (sort_js sortByDirectory P) = filter Q P"
proof -
  let ?f = "\<lambda>q. - int (depth q)"
  have "filter Q (sort_key ?f P) = filter Q (filter (\<lambda>y. ?f y = - int k) (sort_key ?f P))"
    using assms by (auto intro!: filter_cong)
  also have "\<dots> = filter Q (filter (\<lambda>y. ?f y = - int k) P)"
    by (simp only: sort_key_stable)
  also have "\<dots> = filter Q P"
    using assms by (auto intro!: filter_cong)
  finally show ?thesis by (simp add: sort_js_sort_key)
qed

lemma findProjectsFromPath_none:
  assumes "filter (matchesPath (nz p)) (sort_js sortByDirectory P) = []"
  shows "findProjectsFromPath nz P p = Inr []"
  using assms by (simp add: findProjectsFromPath_eq)

lemma findProjectsFromPath_some:
  assumes "filter (matchesPath (nz p)) (sort_js sortByDirectory P) = q0 # rest"
  shows "findProjectsFromPath nz P p =
           Inr (filter (\<lambda>x. matchesPath (nz p) x \<and> directory x = directory q0) P)"
proof -
  have hd: "hd (filter (matchesPath (nz p)) (sort_js sortByDirectory P)) = q0"
    using assms by simp
  have "findProjectsFromPath nz P p =
          Inr (filter (\<lambda>x. directory x = directory q0)
                 (filter (matchesPath (nz p)) (sort_js sortByDirectory P)))"
    unfolding findProjectsFromPath_eq Let_def hd ..
  also have "\<dots> =
          Inr (filter (\<lambda>x. matchesPath (nz p) x \<and> directory x = directory q0) (sort_js sortByDirectory P))"
    by simp
  also have "filter (\<lambda>x. matchesPath (nz p) x \<and> directory x = directory q0) (sort_js sortByDirectory P)
           = filter (\<lambda>x. matchesPath (nz p) x \<and> directory x = directory q0) P"
    by (rule stable_filter[where k = "depth q0"]) (simp add: depth_def)
  finally show ?thesis .
qed

lemma max_depth_directory:
  assumes "\<not> max_tie p P" "a \<in> set P" "b \<in> set P" "at_max_depth p P a" "at_max_depth p P b"
  shows "directory a = directory b"
proof -
  have m: "matchesPath p a" "matchesPath p b"
    using assms(4,5) by (simp_all add: at_max_depth_def)
  have "depth a \<le> depth b"
    using assms(2,5) m(1) unfolding at_max_depth_def by blast
  moreover have "depth b \<le> depth a"
    using assms(3,4) m(2) unfolding at_max_depth_def by blast
  ultimately have d: "depth a = depth b" by simp
  have nt: "\<not> (directory a = ''.'' \<and> directory b \<noteq> ''.'')"
    "\<not> (directory b = ''.'' \<and> directory a \<noteq> ''.'')"
    using assms unfolding max_tie_def by blast+
  show ?thesis
  proof (cases "directory a = ''.''")
    case True
    with nt show ?thesis by simp
  next
    case False
    with nt have b: "directory b \<noteq> ''.''" by simp
    from same_depth_same_directory[OF m False b d] show ?thesis .
  qed
qed

lemma at_max_depth_first:
  assumes "filter (matchesPath p) (sort_js sortByDirectory P) = q0 # rest"
  shows "hd (filter (at_max_depth p P) P) = q0" "filter (at_max_depth p P) P \<noteq> []"
    "\<And>x. x \<in> set P \<Longrightarrow> at_max_depth p P x \<longleftrightarrow> matchesPath p x \<and> depth x = depth q0"
proof -
  note top = hd_deepest[OF assms]
  show iff: "at_max_depth p P x \<longleftrightarrow> matchesPath p x \<and> depth x = depth q0" if "x \<in> set P" for x
    using top that by (auto simp: at_max_depth_def intro: le_antisym)
  let ?Q = "\<lambda>x. matchesPath p x \<and> depth x = depth q0"
  have "filter (at_max_depth p P) P = filter ?Q P"
    using iff by (intro filter_cong) auto
  also have "\<dots> = filter ?Q (sort_js sortByDirectory P)"
    by (rule stable_filter[where k = "depth q0", symmetric]) simp
  also have "\<dots> = filter (\<lambda>x. depth x = depth q0)
                      (filter (matchesPath p) (sort_js sortByDirectory P))"
    by simp
  also have "\<dots> = q0 # filter (\<lambda>x. depth x = depth q0) rest"
    unfolding assms by simp
  finally have eq: "filter (at_max_depth p P) P = q0 # filter (\<lambda>x. depth x = depth q0) rest" .
  then show "hd (filter (at_max_depth p P) P) = q0" "filter (at_max_depth p P) P \<noteq> []"
    by simp_all
qed

text \<open>
  What \<open>findProjectsFromPath\<close> returns, for every list of projects \<open>P\<close>, every path and
  every path normaliser: of the projects of \<open>P\<close> that match at the maximum matching
  depth, in their order in \<open>P\<close>, those that share the directory of the first one. So it
  returns the empty list only when no project matches; and unless a project with
  directory \<^verbatim>\<open>.\<close> ties with a project of another directory at the maximum matching
  depth, it returns exactly the projects that match at that depth: all ties there are
  returned.
\<close>

theorem findProjectsFromPath_deepest:
  "findProjectsFromPath nz P p =
     Inr (case filter (at_max_depth (nz p) P) P of
            [] \<Rightarrow> []
          | q0 # _ \<Rightarrow> filter (\<lambda>q. at_max_depth (nz p) P q \<and> directory q = directory q0) P)
   \<and> (findProjectsFromPath nz P p = Inr [] \<longleftrightarrow> (\<forall>q\<in>set P. \<not> matchesPath (nz p) q))
   \<and> (\<not> max_tie (nz p) P \<longrightarrow>
        findProjectsFromPath nz P p = Inr (filter (at_max_depth (nz p) P) P))"
proof (cases "filter (matchesPath (nz p)) (sort_js sortByDirectory P)")
  case Nil
  then have no: "\<And>q. q \<in> set P \<Longrightarrow> \<not> matchesPath (nz p) q"
    by (auto simp: filter_empty_conv sort_js_sort_key)
  then have "filter (at_max_depth (nz p) P) P = []"
    by (auto simp: filter_empty_conv at_max_depth_def)
  with findProjectsFromPath_none[of nz p P, OF Nil] no show ?thesis by simp
next
  case (Cons q0 rest)
  note res = findProjectsFromPath_some[of nz p P, OF Cons]
  note first = at_max_depth_first[OF Cons]
  note top = hd_deepest[OF Cons]
  obtain tl0 where f: "filter (at_max_depth (nz p) P) P = q0 # tl0"
    using first(1,2) by (cases "filter (at_max_depth (nz p) P) P") auto
  have same: "filter (\<lambda>x. matchesPath (nz p) x \<and> directory x = directory q0) P
      = filter (\<lambda>q. at_max_depth (nz p) P q \<and> directory q = directory q0) P"
  proof (intro filter_cong refl)
    fix x assume x: "x \<in> set P"
    have "depth x = depth q0" if "directory x = directory q0"
      using that by (simp add: depth_def)
    then show "(matchesPath (nz p) x \<and> directory x = directory q0)
        \<longleftrightarrow> (at_max_depth (nz p) P x \<and> directory x = directory q0)"
      using first(3)[OF x] by auto
  qed
  have exact: "findProjectsFromPath nz P p =
     Inr (case filter (at_max_depth (nz p) P) P of
            [] \<Rightarrow> []
          | q0 # _ \<Rightarrow> filter (\<lambda>q. at_max_depth (nz p) P q \<and> directory q = directory q0) P)"
    by (simp add: res same f)
  have q0: "q0 \<in> set P" "at_max_depth (nz p) P q0"
    using top first(3)[of q0] by auto
  then have "q0 \<in> set (filter (\<lambda>q. at_max_depth (nz p) P q \<and> directory q = directory q0) P)"
    by simp
  then have "filter (\<lambda>q. at_max_depth (nz p) P q \<and> directory q = directory q0) P \<noteq> []"
    by (metis empty_iff list.set(1))
  then have nonempty: "findProjectsFromPath nz P p \<noteq> Inr []"
    unfolding res same by simp
  have ex: "\<not> (\<forall>q\<in>set P. \<not> matchesPath (nz p) q)" using top by blast
  have all: "findProjectsFromPath nz P p = Inr (filter (at_max_depth (nz p) P) P)"
    if "\<not> max_tie (nz p) P"
  proof -
    have "filter (\<lambda>q. at_max_depth (nz p) P q \<and> directory q = directory q0) P
        = filter (at_max_depth (nz p) P) P"
      using max_depth_directory[OF that _ q0(1) _ q0(2)] by (intro filter_cong) auto
    then show ?thesis by (simp add: res same)
  qed
  show ?thesis
  proof (intro conjI impI)
    show "findProjectsFromPath nz P p = Inr [] \<longleftrightarrow> (\<forall>q\<in>set P. \<not> matchesPath (nz p) q)"
      using nonempty ex by simp
  qed (rule exact, erule all)
qed

text \<open>
  Claim C10. \<open>findProjectsFromPath\<close> is total: for every list of projects and every path
  it returns a list and never raises; when no project matches it returns the empty
  list, and so it does for the empty list of projects. (The callback that reads
  \<^verbatim>\<open>firstMatch.directory\<close> is never called on an empty array of matches.)
\<close>

theorem findProjectsFromPath_total:
  "(\<exists>R. findProjectsFromPath nz P p = Inr R)
   \<and> ((\<forall>q\<in>set P. \<not> matchesPath (nz p) q) \<longrightarrow> findProjectsFromPath nz P p = Inr [])
   \<and> findProjectsFromPath nz [] p = Inr []"
proof -
  have "findProjectsFromPath nz P p = Inr []" if "\<forall>q\<in>set P. \<not> matchesPath (nz p) q"
    using that by (intro findProjectsFromPath_none[of nz p P]) (auto simp: filter_empty_conv sort_js_sort_key)
  moreover have "findProjectsFromPath nz [] p = Inr []"
    by (simp add: findProjectsFromPath_def sort_js_def)
  moreover have "\<exists>R. findProjectsFromPath nz P p = Inr R"
    by (simp add: findProjectsFromPath_eq Let_def)
  ultimately show ?thesis by blast
qed

theorem findProjectsFromPath_deepest_witness:
  "\<not> max_tie ''apps/web/src''
        [project_at ''root'' ''.'', project_at ''apps'' ''apps'', project_at ''web'' ''apps/web'']
   \<and> matchesPath ''apps/web/src'' (project_at ''web'' ''apps/web'')
   \<and> findProjectsFromPath (\<lambda>p. p)
         [project_at ''root'' ''.'', project_at ''apps'' ''apps'', project_at ''web'' ''apps/web'']
         ''apps/web/src''
       = Inr [project_at ''web'' ''apps/web'']"
proof -
  let ?P = "[project_at ''root'' ''.'', project_at ''apps'' ''apps'', project_at ''web'' ''apps/web'']"
  have d: "depth (project_at ''root'' ''.'') = 1" "depth (project_at ''apps'' ''apps'') = 1"
    "depth (project_at ''web'' ''apps/web'') = 2"
    by (simp_all add: depth_def project_at_def)
  have m: "matchesPath ''apps/web/src'' (project_at ''root'' ''.'')"
    "matchesPath ''apps/web/src'' (project_at ''apps'' ''apps'')"
    "matchesPath ''apps/web/src'' (project_at ''web'' ''apps/web'')"
    by (simp_all add: matchesPath_def startsWith_def project_at_def)
  have a: "\<not> at_max_depth ''apps/web/src'' ?P (project_at ''root'' ''.'')"
    "\<not> at_max_depth ''apps/web/src'' ?P (project_at ''apps'' ''apps'')"
    "at_max_depth ''apps/web/src'' ?P (project_at ''web'' ''apps/web'')"
    by (simp_all add: at_max_depth_def d m)
  have tie: "\<not> max_tie ''apps/web/src'' ?P"
    by (simp add: max_tie_def a)
  have "filter (at_max_depth ''apps/web/src'' ?P) ?P = [project_at ''web'' ''apps/web'']"
    by (simp add: a)
  moreover have "findProjectsFromPath (\<lambda>p. p) ?P ''apps/web/src''
      = Inr (filter (at_max_depth ''apps/web/src'' ?P) ?P)"
    using findProjectsFromPath_deepest[of "\<lambda>p. p" ?P "''apps/web/src''"] tie by blast
  ultimately show ?thesis using tie m(3) by simp
qed

text \<open>
  Claim C1 at the projects \<^verbatim>\<open>.\<close> and \<^verbatim>\<open>apps\<close> and the path \<^verbatim>\<open>apps/web\<close>. Both projects
  match, and both directories have one segment, so both lie at the maximum matching
  depth. Listed as \<^verbatim>\<open>.\<close>, \<^verbatim>\<open>apps\<close>, only the project \<^verbatim>\<open>.\<close> is returned; listed as
  \<^verbatim>\<open>apps\<close>, \<^verbatim>\<open>.\<close>, only the project \<^verbatim>\<open>apps\<close> is: the tie is never returned in full, and
  the order of the list decides whether the more specific project is found.
\<close>

theorem findProjectsFromPath_tie_order:
  "findProjectsFromPath (\<lambda>p. p) [project_at ''root'' ''.'', project_at ''apps'' ''apps'']
       ''apps/web''
     = Inr [project_at ''root'' ''.'']
   \<and> findProjectsFromPath (\<lambda>p. p) [project_at ''apps'' ''apps'', project_at ''root'' ''.'']
       ''apps/web''
     = Inr [project_at ''apps'' ''apps'']
   \<and> filter (at_max_depth ''apps/web'' [project_at ''root'' ''.'', project_at ''apps'' ''apps''])
         [project_at ''root'' ''.'', project_at ''apps'' ''apps'']
     = [project_at ''root'' ''.'', project_at ''apps'' ''apps'']"
proof -
  have d: "depth (project_at ''root'' ''.'') = 1" "depth (project_at ''apps'' ''apps'') = 1"
    by (simp_all add: depth_def project_at_def)
  have m: "matchesPath ''apps/web'' (project_at ''root'' ''.'')"
    "matchesPath ''apps/web'' (project_at ''apps'' ''apps'')"
    by (simp_all add: matchesPath_def startsWith_def project_at_def)
  have c: "sortByDirectory (project_at ''root'' ''.'') (project_at ''apps'' ''apps'') = 0"
    "sortByDirectory (project_at ''apps'' ''apps'') (project_at ''root'' ''.'') = 0"
    by (simp_all add: sortByDirectory_def project_at_def)
  have "findProjectsFromPath (\<lambda>p. p) [project_at ''root'' ''.'', project_at ''apps'' ''apps'']
       ''apps/web'' = Inr [project_at ''root'' ''.'']"
    by (simp add: findProjectsFromPath_def sort_js_def c m) (simp add: project_at_def)
  moreover have "findProjectsFromPath (\<lambda>p. p) [project_at ''apps'' ''apps'', project_at ''root'' ''.'']
       ''apps/web'' = Inr [project_at ''apps'' ''apps'']"
    by (simp add: findProjectsFromPath_def sort_js_def c m) (simp add: project_at_def)
  ultimately show ?thesis by (simp add: at_max_depth_def d m)
qed

theorem findProjectsFromPath_total_witness:
  "\<not> matchesPath ''docs'' (project_at ''web'' ''apps/web'')
   \<and> findProjectsFromPath (\<lambda>p. p) [project_at ''web'' ''apps/web''] ''docs'' = Inr []"
proof -
  have m: "\<not> matchesPath ''docs'' (project_at ''web'' ''apps/web'')"
    by (simp add: matchesPath_def startsWith_def project_at_def)
  with findProjectsFromPath_total[where nz = "\<lambda>p. p" and P = "[project_at ''web'' ''apps/web'']" and p = "''docs''"]
  show ?thesis by simp
qed

lemma split_on_nonempty: "split_on c s \<noteq> []"
  by (induction s) (auto split: list.splits)

lemma split_on_append_sep:
  "split_on c (xs @ c # ys) = split_on c xs @ split_on c ys"
  by (induction xs) (auto split: list.splits simp: split_on_nonempty)

lemma split_on_prefix_imp:
  "prefix (split_on c d) (split_on c p) \<Longrightarrow> p = d \<or> prefix (d @ [c]) p"
proof (induction d arbitrary: p)
  case Nil
  then show ?case by (cases p) (auto split: if_splits list.splits)
next
  case (Cons x d)
  show ?case
  proof (cases p)
    case Nil
    with Cons.prems show ?thesis
      by (auto split: if_splits list.splits simp: split_on_nonempty)
  next
    case (Cons y p')
    with Cons.prems have "x = y \<and> prefix (split_on c d) (split_on c p')"
      by (auto split: if_splits list.splits simp: split_on_nonempty)
    with Cons.IH[of p'] Cons show ?thesis by auto
  qed
qed

text \<open>
  No partial-segment matches: a project matches a path exactly when its directory is
  \<^verbatim>\<open>.\<close> or the segments of its directory are the first segments of the path.
\<close>

theorem matchesPath_whole_segments:
  "matchesPath p q \<longleftrightarrow>
     directory q = ''.''
     \<or> prefix (split_on CHR ''/'' (directory q)) (split_on CHR ''/'' p)"
proof (cases "directory q = ''.''")
  case True
  then show ?thesis by (simp add: matchesPath_def)
next
  case False
  have "prefix (split_on CHR ''/'' (directory q)) (split_on CHR ''/'' p)"
    if "prefix (directory q @ ''/'') p"
  proof -
    from that obtain r where "p = directory q @ CHR ''/'' # r" by (auto simp: prefix_def)
    then show ?thesis by (simp add: split_on_append_sep)
  qed
  with split_on_prefix_imp[of "CHR ''/''" "directory q" p] False
  show ?thesis by (auto simp: matchesPath_def startsWith_def)
qed

section \<open>Properties of \<open>findRepoRoot\<close>\<close>

lemma findRepoRoot_from_pass:
  assumes "passes env c"
  shows "findRepoRoot_from env c = findRepoRoot_from env (join env c ''..'')"
  using assms
  by (subst findRepoRoot_from.simps)
     (simp add: passes_def no_marker_def traverseUp_next_def)

lemma findRepoRoot_from_walk:
  assumes "\<forall>i<k. passes env (((\<lambda>c. join env c ''..'') ^^ i) c)"
  shows "findRepoRoot_from env c = findRepoRoot_from env (((\<lambda>c. join env c ''..'') ^^ k) c)"
  using assms
proof (induction k)
  case 0
  show ?case by simp
next
  case (Suc k)
  then have "findRepoRoot_from env c = findRepoRoot_from env (((\<lambda>c. join env c ''..'') ^^ k) c)"
    by simp
  also have "\<dots> = findRepoRoot_from env (join env (((\<lambda>c. join env c ''..'') ^^ k) c) ''..'')"
    using Suc.prems by (intro findRepoRoot_from_pass) simp
  finally show ?case by simp
qed

lemma findRepoRoot_from_marker:
  assumes "has_marker env d" "d \<noteq> []" "d \<noteq> home env"
  shows "findRepoRoot_from env d = Some (Inr (Some d))"
  using assms
  by (subst findRepoRoot_from.simps) (auto simp: has_marker_def)

lemma findRepoRoot_from_home:
  "findRepoRoot_from env (home env) = Some (Inr None)"
  by (subst findRepoRoot_from.simps) simp

lemma findRepoRoot_from_top:
  assumes "no_marker env d" "join env d ''..'' = d"
  shows "findRepoRoot_from env d = Some (Inr None)"
  using assms
  by (subst findRepoRoot_from.simps) (simp add: no_marker_def traverseUp_next_def)

text \<open>
  What the walk returns, for every file system, home directory and path functions. Let
  the walk from \<open>start\<close> pass through its first \<open>k\<close> directories (none of them is
  spelled like the home directory or holds a repo marker, and each has a parent other
  than itself). If the \<open>k\<close>-th directory holds the manifest \<^verbatim>\<open>.vercel/repo.json\<close>, or
  holds no manifest but \<^verbatim>\<open>.git/config\<close>, and its path is not the string
  \<^verbatim>\<open>homedir()\<close> returns, \<open>findRepoRoot\<close> returns it: the first such directory, closest
  to \<open>start\<close>, \<open>start\<close> itself when \<open>k = 0\<close>. If the path of the \<open>k\<close>-th directory is
  that string, \<open>findRepoRoot\<close> returns "not found", whatever markers the directory
  holds. If the \<open>k\<close>-th directory holds no marker and is its own parent,
  \<open>findRepoRoot\<close> returns "not found".
\<close>

theorem findRepoRoot_first_marker:
  assumes "\<forall>i<k. passes env (ancestor env start i)"
  shows "(has_marker env (ancestor env start k) \<and> ancestor env start k \<noteq> []
            \<and> ancestor env start k \<noteq> home env
          \<longrightarrow> findRepoRoot env start = Some (Inr (Some (ancestor env start k))))
       \<and> (ancestor env start k = home env \<longrightarrow> findRepoRoot env start = Some (Inr None))
       \<and> (no_marker env (ancestor env start k)
            \<and> join env (ancestor env start k) ''..'' = ancestor env start k
          \<longrightarrow> findRepoRoot env start = Some (Inr None))"
proof -
  have walk: "findRepoRoot env start = findRepoRoot_from env (ancestor env start k)"
    unfolding findRepoRoot_def ancestor_def
    using assms by (intro findRepoRoot_from_walk) (simp add: ancestor_def)
  show ?thesis
    unfolding walk
    using findRepoRoot_from_marker[of env "ancestor env start k"]
      findRepoRoot_from_home[of env] findRepoRoot_from_top[of env "ancestor env start k"]
    by auto
qed

lemma example_ancestors:
  "ancestor example_fs ''/home/u/proj/sub/sub2'' 0 = ''/home/u/proj/sub/sub2''"
  "ancestor example_fs ''/home/u/proj/sub/sub2'' (Suc 0) = ''/home/u/proj/sub''"
  "ancestor example_fs ''/home/u/proj/sub/sub2'' (Suc (Suc 0)) = ''/home/u/proj''"
  "ancestor example_fs ''/home/u'' 0 = ''/home/u''"
  "ancestor example_fs ''/home'' 0 = ''/home''"
  "ancestor example_fs ''/home'' (Suc 0) = ''/''"
  by code_simp+

lemma example_passes:
  "passes example_fs ''/home/u/proj/sub/sub2''"
  "passes example_fs ''/home/u/proj/sub''"
  "passes example_fs ''/home''"
  by code_simp+

lemma example_markers:
  "has_marker example_fs ''/home/u/proj''" "has_marker example_fs ''/home/u''"
  "no_marker example_fs ''/''" "join example_fs ''/'' ''..'' = ''/''"
  "home example_fs = ''/home/u''"
  by code_simp+

theorem findRepoRoot_first_marker_witness:
  "findRepoRoot example_fs ''/home/u/proj/sub/sub2'' = Some (Inr (Some ''/home/u/proj''))
   \<and> has_marker example_fs ''/home/u''
   \<and> findRepoRoot example_fs ''/home/u'' = Some (Inr None)
   \<and> findRepoRoot example_fs ''/home'' = Some (Inr None)"
proof -
  have p2: "\<forall>i<Suc (Suc 0). passes example_fs (ancestor example_fs ''/home/u/proj/sub/sub2'' i)"
    by (simp add: less_Suc_eq example_ancestors example_passes)
  have a: "findRepoRoot example_fs ''/home/u/proj/sub/sub2'' = Some (Inr (Some ''/home/u/proj''))"
    using findRepoRoot_first_marker[OF p2] example_markers(1,5)
    by (simp add: example_ancestors)
  have p0: "\<forall>i<0. passes example_fs (ancestor example_fs ''/home/u'' i)" by simp
  have b: "findRepoRoot example_fs ''/home/u'' = Some (Inr None)"
    using findRepoRoot_first_marker[OF p0] example_markers(5)
    by (simp add: example_ancestors)
  have p1: "\<forall>i<Suc 0. passes example_fs (ancestor example_fs ''/home'' i)"
    by (simp add: example_ancestors example_passes)
  have c: "findRepoRoot example_fs ''/home'' = Some (Inr None)"
    using findRepoRoot_first_marker[OF p1] example_markers(3,4)
    by (simp add: example_ancestors)
  from a b c example_markers(2) show ?thesis by simp
qed

text \<open>
  Claim C8 at a start that spells the home directory with a trailing slash. The home
  directory is \<^verbatim>\<open>/home/u\<close> and holds \<^verbatim>\<open>.git/config\<close>. From the start \<^verbatim>\<open>/home/u\<close> the
  walk stops at once and returns "not found". From the start \<^verbatim>\<open>/home/u/\<close>, which
  \<^verbatim>\<open>normalize\<close> leaves as it is, the test \<^verbatim>\<open>current === home\<close> fails, the Git config
  is found, and the home directory is returned.
\<close>

theorem findRepoRoot_returns_home:
  "home example_fs = ''/home/u''
   \<and> findRepoRoot example_fs ''/home/u'' = Some (Inr None)
   \<and> normalize example_fs ''/home/u/'' = ''/home/u/''
   \<and> lstat example_fs (join example_fs ''/home/u/'' (GIT_CONFIG_PATH example_fs)) = Stats
   \<and> findRepoRoot example_fs ''/home/u/'' = Some (Inr (Some ''/home/u/''))"
  by code_simp

lemma findRepoRoot_from_returns:
  assumes "findRepoRoot_from env c = Some y"
  shows "\<exists>k. \<not> passes env (((\<lambda>c. join env c ''..'') ^^ k) c)"
proof (rule findRepoRoot_from.raw_induct
    [where P = "\<lambda>env c y. \<exists>k. \<not> passes env (((\<lambda>c. join env c ''..'') ^^ k) c)", OF _ assms])
  fix rec :: "fs_env \<Rightarrow> string \<Rightarrow> (string + string option) option"
    and env c y
  assume ih: "\<And>env c y. rec env c = Some y
      \<Longrightarrow> \<exists>k. \<not> passes env (((\<lambda>c. join env c ''..'') ^^ k) c)"
  assume body: "(if c = [] then Some (Inr None)
      else if c = home env then Some (Inr None)
           else case lstat env (join env c (REPO_JSON_PATH env)) of
                Stats \<Rightarrow> Some (Inr (Some c))
                | ENOENT \<Rightarrow>
                    (case lstat env (join env c (GIT_CONFIG_PATH env)) of
                    Stats \<Rightarrow> Some (Inr (Some c))
                    | ENOENT \<Rightarrow>
                        (case traverseUp_next env c of
                        None \<Rightarrow> Some (Inr None)
                        | Some next \<Rightarrow> rec env next)
                    | LstatError code \<Rightarrow> Some (Inl code))
                | LstatError code \<Rightarrow> Some (Inl code)) = Some y"
  show "\<exists>k. \<not> passes env (((\<lambda>c. join env c ''..'') ^^ k) c)"
  proof (cases "passes env c")
    case False
    then have "\<not> passes env (((\<lambda>c. join env c ''..'') ^^ 0) c)" by simp
    then show ?thesis by blast
  next
    case True
    with body have "rec env (join env c ''..'') = Some y"
      by (simp add: passes_def no_marker_def traverseUp_next_def)
    from ih[OF this] obtain k
      where "\<not> passes env (((\<lambda>c. join env c ''..'') ^^ k) (join env c ''..''))"
      by blast
    then have "\<not> passes env (((\<lambda>c. join env c ''..'') ^^ Suc k) c)"
      by (simp add: funpow_Suc_right del: funpow.simps)
    then show ?thesis by blast
  qed
qed

text \<open>
  The walk fails to return exactly when it passes through every directory it visits:
  none is the home directory, none holds a marker, none makes \<^verbatim>\<open>lstat\<close> fail, and
  each has a parent other than itself.
\<close>

theorem findRepoRoot_endless_walk:
  "(\<forall>k. passes env (ancestor env start k)) \<longleftrightarrow> findRepoRoot env start = None"
proof
  assume "\<forall>k. passes env (ancestor env start k)"
  then show "findRepoRoot env start = None"
    using findRepoRoot_from_returns[of env "normalize env start"]
    by (cases "findRepoRoot env start") (auto simp: findRepoRoot_def ancestor_def)
next
  assume n: "findRepoRoot env start = None"
  show "\<forall>k. passes env (ancestor env start k)"
  proof (rule ccontr)
    assume "\<not> (\<forall>k. passes env (ancestor env start k))"
    then obtain k where k: "\<not> passes env (ancestor env start k)"
      "\<forall>i<k. passes env (ancestor env start i)"
      using exists_least_iff[of "\<lambda>k. \<not> passes env (ancestor env start k)"] by auto
    have walk: "findRepoRoot env start = findRepoRoot_from env (ancestor env start k)"
      unfolding findRepoRoot_def ancestor_def
      using k(2) by (intro findRepoRoot_from_walk) (simp add: ancestor_def)
    have "findRepoRoot_from env (ancestor env start k) \<noteq> None"
      using k(1)
      by (subst findRepoRoot_from.simps)
         (auto simp: passes_def no_marker_def traverseUp_next_def Let_def
            split: lstat_result.splits)
    with walk n show False by simp
  qed
qed


lemma split_on_single: "c \<notin> set s \<Longrightarrow> split_on c s = [s]"
  by (induction s) auto

lemma split_on_join_segments:
  assumes "segs \<noteq> []" "\<forall>s\<in>set segs. CHR ''/'' \<notin> set s"
  shows "split_on CHR ''/'' (join_segments segs) = segs"
  using assms
proof (induction segs rule: join_segments.induct)
  case 1
  then show ?case by simp
next
  case (2 seg)
  then show ?case by (simp add: split_on_single)
next
  case (3 seg v va)
  then show ?case by (simp add: split_on_append_sep split_on_single)
qed

lemma normalizeString_dots:
  assumes "res = [] \<or> last res = ''..''"
  shows "normalizeString True res (replicate n ''..'') = res @ replicate n ''..''"
  using assms
proof (induction n arbitrary: res)
  case 0
  show ?case by simp
next
  case (Suc n)
  have "normalizeString True res (replicate (Suc n) ''..'')
      = normalizeString True (res @ [''..'']) (replicate n ''..'')"
    using Suc.prems by auto
  also have "\<dots> = (res @ [''..'']) @ replicate n ''..''"
    by (rule Suc.IH) simp
  finally show ?case by (simp add: replicate_app_Cons_same)
qed

lemma dots_Suc: "dots (Suc k) = dots k @ ''/..''"
  unfolding dots_def
proof (induction k)
  case 0
  show ?case by simp
next
  case (Suc k)
  have "join_segments (replicate (Suc (Suc (Suc k))) ''..'')
      = ''../'' @ join_segments (replicate (Suc (Suc k)) ''..'')"
    by simp
  also have "\<dots> = ''../'' @ join_segments (replicate (Suc k) ''..'') @ ''/..''"
    using Suc by simp
  also have "\<dots> = join_segments (replicate (Suc (Suc k)) ''..'') @ ''/..''"
    by simp
  finally show ?case .
qed

lemma dots_shape: "dots k \<noteq> []" "hd (dots k) = CHR ''.''" "last (dots k) = CHR ''.''"
  by (induction k) (simp_all add: dots_Suc, simp_all add: dots_def)

lemma posix_normalize_dots: "posix_normalize (dots k) = dots k"
proof -
  have "split_on CHR ''/'' (dots k) = replicate (Suc k) ''..''"
    unfolding dots_def by (rule split_on_join_segments) auto
  then have "join_segments (normalizeString True [] (split_on CHR ''/'' (dots k))) = dots k"
    using normalizeString_dots[of "[]" "Suc k"] by (simp add: dots_def)
  then show ?thesis
    using dots_shape[of k] by (simp add: posix_normalize_def Let_def)
qed

lemma posix_join_dots: "posix_join (dots k) ''..'' = dots (Suc k)"
  using dots_shape(1)[of k] dots_shape(1)[of "Suc k"] posix_normalize_dots[of "Suc k"]
  by (simp add: posix_join_def Let_def dots_Suc)

lemma empty_fs_ancestor: "ancestor empty_fs ''.'' (Suc k) = dots k"
proof (induction k)
  case 0
  show ?case by code_simp
next
  case (Suc k)
  have "ancestor empty_fs ''.'' (Suc (Suc k)) = posix_join (ancestor empty_fs ''.'' (Suc k)) ''..''"
    by (simp add: ancestor_def empty_fs_def)
  then show ?case by (simp add: Suc posix_join_dots)
qed

lemma empty_fs_passes_dots: "passes empty_fs (dots k)"
proof -
  have "dots (Suc k) \<noteq> dots k" by (simp add: dots_Suc)
  moreover have "dots k \<noteq> ''/home/u''" using dots_shape(2)[of k] by auto
  ultimately show ?thesis
    using dots_shape(1)[of k]
    by (simp add: passes_def no_marker_def empty_fs_def posix_join_dots)
qed

text \<open>
  From the relative start \<^verbatim>\<open>.\<close>, in a file system without markers, the walk visits
  \<^verbatim>\<open>.\<close>, \<^verbatim>\<open>..\<close>, \<^verbatim>\<open>../..\<close> and so on: \<^verbatim>\<open>join(current, '..')\<close> never equals \<^verbatim>\<open>current\<close>, and
  \<open>findRepoRoot\<close> does not return.
\<close>

theorem findRepoRoot_relative_start:
  "findRepoRoot empty_fs ''.'' = None"
proof -
  have "passes empty_fs (ancestor empty_fs ''.'' k)" for k
  proof (cases k)
    case 0
    have "passes empty_fs (ancestor empty_fs ''.'' 0)" by code_simp
    with 0 show ?thesis by simp
  next
    case (Suc n)
    then show ?thesis by (simp add: empty_fs_ancestor empty_fs_passes_dots)
  qed
  then have all: "passes empty_fs (((\<lambda>c. join empty_fs c ''..'') ^^ k) (normalize empty_fs ''.''))" for k
    by (simp add: ancestor_def)
  show ?thesis
  proof (cases "findRepoRoot empty_fs ''.''")
    case None
    then show ?thesis .
  next
    case (Some y)
    then have "findRepoRoot_from empty_fs (normalize empty_fs ''.'') = Some y"
      by (simp add: findRepoRoot_def)
    from findRepoRoot_from_returns[OF this] all show ?thesis by blast
  qed
qed
section \<open>Properties of \<open>printEvents\<close>\<close>

lemma callOnOpenOnce_idem: "callOnOpenOnce (callOnOpenOnce s) = callOnOpenOnce s"
  by (simp add: callOnOpenOnce_def)

lemma callOnOpenOnce_funpow:
  "(callOnOpenOnce ^^ n) s = (if n = 0 then s else callOnOpenOnce s)"
  by (induction n) (auto simp: callOnOpenOnce_idem)


lemma open_once_finish: "open_once s \<Longrightarrow> open_once (finish opts e s)"
  by (simp add: open_once_def finish_def callOnOpenOnce_def Let_def split: option.splits)











lemma gate_ok_finish: "gate_ok s \<Longrightarrow> gate_ok (finish opts e s)"
  by (simp add: gate_ok_def finish_def callOnOpenOnce_def Let_def split: option.splits)

lemma gate_ok_onData: "gate_ok s \<Longrightarrow> gate_ok (onData opts d s)"
  by (auto simp: onData_def Let_def stream_end_def callOnOpenOnce_funpow
      split: prod.splits intro!: gate_ok_finish)
     (auto simp: gate_ok_def callOnOpenOnce_def)

lemma gate_ok_onError: "gate_ok s \<Longrightarrow> gate_ok (onError e s)"
  by (simp add: gate_ok_def onError_def callOnOpenOnce_def Let_def)

lemma gate_ok_onPoll: "gate_ok s \<Longrightarrow> gate_ok (onPoll opts r s)"
  by (auto simp: onPoll_def stream_end_def startPoller_def
      split: poll_result.splits sum.splits intro!: gate_ok_finish)
     (auto simp: gate_ok_def)

lemma gate_ok_deliver: "gate_ok s \<Longrightarrow> gate_ok (deliver opts i s)"
  by (auto simp: deliver_def split: stream_input.splits option.splits
      intro!: gate_ok_finish gate_ok_onData gate_ok_onError gate_ok_onPoll)
     (auto simp: gate_ok_def)

lemma gate_ok_fold: "gate_ok s \<Longrightarrow> gate_ok (fold (deliver opts) inputs s)"
  by (induction inputs arbitrary: s) (auto intro: gate_ok_deliver)

lemma gate_ok_attempt_start: "gate_ok (attempt_start opts s)"
  by (simp add: gate_ok_def attempt_start_def startPoller_def Let_def)


lemma finish_first:
  "\<not> finishCalled s \<Longrightarrow>
     finishCalled (finish opts e s) \<and> poller (finish opts e s) = None
     \<and> settled (finish opts e s) = settled s @ [outcome_of e]
     \<and> stream_ended (finish opts e s) = stream_ended s
     \<and> printed (finish opts e s) = printed s \<and> o_units (finish opts e s) = o_units s
     \<and> onOpenCalled (finish opts e s)"
  by (simp add: finish_def callOnOpenOnce_def outcome_of_def Let_def split: option.splits)



lemma onData_normal:
  assumes "enat (Suc (counter s)) \<noteq> limit opts" "event d \<noteq> ''build-complete''"
  shows "printed (onData opts d s) = printed s @ [d]"
    "o_units (onData opts d s) = o_units s + fst (printEvent opts d)"
    "settled (onData opts d s) = settled s"
    "finishCalled (onData opts d s) = finishCalled s"
    "stream_ended (onData opts d s) = stream_ended s"
    "counter (onData opts d s) = Suc (counter s)"
  using assms
  by (auto simp: onData_def Let_def callOnOpenOnce_funpow callOnOpenOnce_def split: prod.splits)

lemma onData_limit:
  assumes "enat (Suc (counter s)) = limit opts" "\<not> finishCalled s"
  shows "printed (onData opts d s) = printed s"
    "settled (onData opts d s) = settled s @ [Resolved]"
    "finishCalled (onData opts d s)"
    "stream_ended (onData opts d s)"
  using assms finish_first[of "stream_end (s\<lparr>counter := Suc (counter s)\<rparr>)" opts None]
  by (auto simp: onData_def Let_def stream_end_def outcome_of_def)

text \<open>
  Claim C3, as the code has it. For every decoded record that does not trigger the
  limit: if its discriminator is \<^verbatim>\<open>build-complete\<close> and the mode is \<^verbatim>\<open>deploy\<close> (and the
  attempt has not finished yet), the consumer stops the stream and resolves without
  forwarding the record or changing \<^verbatim>\<open>o\<close>, and \<^verbatim>\<open>onOpen\<close> has been invoked exactly once
  by then; if its discriminator is \<^verbatim>\<open>build-complete\<close> and the mode is not \<^verbatim>\<open>deploy\<close>,
  the record is counted and dropped: it is not forwarded and nothing else changes;
  every other record is forwarded to \<^verbatim>\<open>printEvent\<close> and the unit count it returns is
  added to \<^verbatim>\<open>o\<close>.
\<close>

theorem onData_dispatch:
  assumes "enat (Suc (counter s)) \<noteq> limit opts"
  shows "(event d = ''build-complete'' \<and> mode opts = ''deploy'' \<and> \<not> finishCalled s
            \<and> settled s = [] \<and> open_once s
          \<longrightarrow> stream_ended (onData opts d s) \<and> finishCalled (onData opts d s)
              \<and> settled (onData opts d s) = [Resolved]
              \<and> printed (onData opts d s) = printed s
              \<and> o_units (onData opts d s) = o_units s
              \<and> onOpen_calls (onData opts d s) = 1)
       \<and> (event d = ''build-complete'' \<and> mode opts \<noteq> ''deploy''
          \<longrightarrow> onData opts d s = s\<lparr>counter := Suc (counter s)\<rparr>)
       \<and> (event d \<noteq> ''build-complete''
          \<longrightarrow> printed (onData opts d s) = printed s @ [d]
              \<and> o_units (onData opts d s) = o_units s + fst (printEvent opts d)
              \<and> settled (onData opts d s) = settled s
              \<and> finishCalled (onData opts d s) = finishCalled s)"
proof -
  have deploy: "stream_ended (onData opts d s) \<and> finishCalled (onData opts d s)
              \<and> settled (onData opts d s) = [Resolved]
              \<and> printed (onData opts d s) = printed s
              \<and> o_units (onData opts d s) = o_units s
              \<and> onOpen_calls (onData opts d s) = 1"
    if "event d = ''build-complete''" "mode opts = ''deploy''" "\<not> finishCalled s"
      "settled s = []" "open_once s"
  proof -
    let ?s1 = "stream_end (s\<lparr>counter := Suc (counter s)\<rparr>)"
    have eq: "onData opts d s = finish opts None ?s1"
      using assms that by (simp add: onData_def Let_def)
    have "open_once (finish opts None ?s1)"
      using that(5) by (intro open_once_finish) (simp add: open_once_def stream_end_def)
    moreover have "\<not> finishCalled ?s1" using that(3) by (simp add: stream_end_def)
    note finish_first[OF this, of opts None]
    ultimately show ?thesis
      unfolding eq using that(4)
      by (simp add: open_once_def stream_end_def outcome_of_def)
  qed
  have other: "onData opts d s = s\<lparr>counter := Suc (counter s)\<rparr>"
    if "event d = ''build-complete''" "mode opts \<noteq> ''deploy''"
    using assms that by (simp add: onData_def Let_def)
  from deploy other onData_normal[OF assms, of d] show ?thesis by blast
qed

theorem onData_dispatch_witness:
  "enat (Suc (counter (attempt_start deploy_options initial))) \<noteq> limit deploy_options
   \<and> settled (onData deploy_options build_complete (attempt_start deploy_options initial)) = [Resolved]
   \<and> printed (onData deploy_options build_complete (attempt_start deploy_options initial)) = []
   \<and> onOpen_calls (onData deploy_options build_complete (attempt_start deploy_options initial)) = 1
   \<and> onData (logs_options None) build_complete initial = initial\<lparr>counter := 1\<rparr>
   \<and> printed (onData (logs_options None) (line ''a'') initial) = [line ''a'']
   \<and> o_units (onData (logs_options None) (line ''a'') initial) = 1"
proof -
  let ?s = "attempt_start deploy_options initial"
  have l: "enat (Suc (counter ?s)) \<noteq> limit deploy_options"
    "enat (Suc (counter initial)) \<noteq> limit (logs_options None)"
    by (simp_all add: limit_def deploy_options_def logs_options_def)
  have s: "\<not> finishCalled ?s" "settled ?s = []" "open_once ?s" "printed ?s = []"
    by (simp_all add: attempt_start_def startPoller_def deploy_options_def initial_def open_once_def)
  have e: "event build_complete = ''build-complete''" "mode deploy_options = ''deploy''"
    "mode (logs_options None) \<noteq> ''deploy''" "event (line ''a'') \<noteq> ''build-complete''"
    "printEvent (logs_options None) (line ''a'') = (1, 0)"
    by (simp_all add: build_complete_def deploy_options_def logs_options_def line_def one_line_def)
  from onData_dispatch[OF l(1), of build_complete] s e
  have a: "settled (onData deploy_options build_complete ?s) = [Resolved]
     \<and> printed (onData deploy_options build_complete ?s) = []
     \<and> onOpen_calls (onData deploy_options build_complete ?s) = 1" by simp
  from onData_dispatch[OF l(2), of build_complete] e
  have b: "onData (logs_options None) build_complete initial = initial\<lparr>counter := 1\<rparr>"
    by (simp add: initial_def)
  from onData_dispatch[OF l(2), of "line ''a''"] e
  have c: "printed (onData (logs_options None) (line ''a'') initial) = [line ''a'']
      \<and> o_units (onData (logs_options None) (line ''a'') initial) = 1"
    by (simp add: initial_def)
  from a b c l(1) show ?thesis by simp
qed

text \<open>
  A \<^verbatim>\<open>build-complete\<close> record outside \<^verbatim>\<open>deploy\<close> mode is not forwarded to \<^verbatim>\<open>printEvent\<close>.
\<close>

theorem onData_build_complete_counterexample:
  "enat (Suc (counter initial)) \<noteq> limit (logs_options None)
   \<and> mode (logs_options None) \<noteq> ''deploy''
   \<and> event build_complete = ''build-complete''
   \<and> printed (onData (logs_options None) build_complete initial) = []
   \<and> printed (onData (logs_options None) build_complete initial) \<noteq> printed initial @ [build_complete]"
  by (simp add: onData_def limit_def logs_options_def build_complete_def initial_def Let_def)

text \<open>
  Claim C7, as the code has it. When \<^verbatim>\<open>onRetry\<close> runs (before the wrapper reconnects): if
  \<^verbatim>\<open>quiet\<close> is not set and output units were emitted since the last retry boundary
  (\<open>o > 0\<close>), exactly \<open>o + 1\<close> lines are erased and \<open>o\<close> is reset to 0; if \<^verbatim>\<open>quiet\<close> is set,
  or no unit was emitted, nothing is erased and \<open>o\<close> is left as it is.
\<close>

theorem onRetry_erases:
  "(\<not> quiet opts \<and> 0 < o_units s
      \<longrightarrow> erased (onRetry opts e s) = erased s @ [o_units s + 1]
          \<and> o_units (onRetry opts e s) = 0)
   \<and> (quiet opts \<or> o_units s = 0
      \<longrightarrow> erased (onRetry opts e s) = erased s
          \<and> o_units (onRetry opts e s) = o_units s)"
  by (auto simp: onRetry_def Let_def)

theorem onRetry_erases_witness:
  "\<not> quiet deploy_options \<and> 0 < o_units (initial\<lparr>o_units := 2\<rparr>)
   \<and> erased (onRetry deploy_options (Thrown ''poll'') (initial\<lparr>o_units := 2\<rparr>)) = [3]
   \<and> o_units (onRetry deploy_options (Thrown ''poll'') (initial\<lparr>o_units := 2\<rparr>)) = 0
   \<and> erased (onRetry deploy_options (Thrown ''poll'') initial) = []"
proof -
  have h: "\<not> quiet deploy_options" "0 < o_units (initial\<lparr>o_units := 2\<rparr>)"
    "o_units initial = 0" "erased initial = []"
    by (simp_all add: deploy_options_def initial_def)
  from onRetry_erases[of deploy_options "initial\<lparr>o_units := 2\<rparr>" "Thrown ''poll''"]
    onRetry_erases[of deploy_options initial "Thrown ''poll''"] h
  show ?thesis by simp
qed

lemma printEvents_unfold:
  "printEvents opts feeds =
     retry (\<lambda>n. attempt opts (feeds n)) (Suc (Suc (Suc (Suc 0)))) (onRetry opts) (Suc 0) initial"
  by (simp add: printEvents_def eval_nat_numeral)

lemmas run_defs = printEvents_unfold attempt_def
      attempt_start_def startPoller_def deliver_def onData_def onPoll_def onError_def finish_def
      callOnOpenOnce_def stream_end_def onRetry_def limit_def Let_def initial_def

text \<open>
  With \<^verbatim>\<open>quiet\<close> set, a retry after two emitted units erases nothing and keeps \<open>o\<close>.
\<close>

theorem onRetry_quiet_counterexample:
  "fst (snd (printEvents quiet_deploy_options poll_fails_then_ends)) = 2
   \<and> o_units (snd (attempt quiet_deploy_options (poll_fails_then_ends 1) initial)) = 2
   \<and> erased (snd (snd (printEvents quiet_deploy_options poll_fails_then_ends))) = []
   \<and> o_units (snd (snd (printEvents quiet_deploy_options poll_fails_then_ends))) = 2"
  by (simp add: run_defs poll_fails_then_ends_def
      quiet_deploy_options_def deploy_options_def line_def one_line_def)

text \<open>
  A poll that fails in the first attempt is not the end of the call: the attempt is
  rejected with the poll's error, the wrapper retries, and the call resolves in the
  second attempt.
\<close>

theorem poll_error_retried_counterexample:
  "fst (attempt deploy_options (poll_fails_then_ends 1) initial) = Failed (Thrown ''poll'')
   \<and> fst (printEvents deploy_options poll_fails_then_ends) = CallResolved
   \<and> fst (snd (printEvents deploy_options poll_fails_then_ends)) = 2"
  by (simp add: run_defs poll_fails_then_ends_def
      deploy_options_def line_def one_line_def)

text \<open>
  Claim C2 at \<open>limit = 3\<close> against a feed of five normal records. The third record
  brings the counter to the limit: it ends the stream, resolves the call and is not
  forwarded. When the stream hands all five records to \<^verbatim>\<open>onData\<close> (they were parsed
  from one chunk), the records 1, 2, 4 and 5 are forwarded; when it hands over no
  record after \<^verbatim>\<open>stream.end()\<close>, the records 1 and 2 are. In neither run are three
  records forwarded.
\<close>

theorem limit_drops_last_record:
  "fst (printEvents (logs_options (Some 3)) (\<lambda>n. FeedResponse True 200 five_lines)) = CallResolved
   \<and> printed (snd (snd (printEvents (logs_options (Some 3)) (\<lambda>n. FeedResponse True 200 five_lines))))
       = [line ''1'', line ''2'', line ''4'', line ''5'']
   \<and> fst (printEvents (logs_options (Some 3)) (\<lambda>n. FeedResponse True 200 (take 3 five_lines)))
       = CallResolved
   \<and> printed (snd (snd (printEvents (logs_options (Some 3))
         (\<lambda>n. FeedResponse True 200 (take 3 five_lines)))))
       = [line ''1'', line ''2'']"
  by (simp add: run_defs five_lines_def logs_options_def line_def one_line_def)

lemma retry_attempts_ge: "k \<le> fst (snd (retry fn r on_retry k s))"
proof (induction r arbitrary: k s)
  case 0
  show ?case by (auto split: prod.splits attempt_result.splits)
next
  case (Suc r)
  have "k \<le> fst (snd (retry fn r on_retry (Suc k) s'))" for s'
    using Suc[of "Suc k" s'] by simp
  then show ?case by (auto split: prod.splits attempt_result.splits)
qed

lemma retry_bailed:
  assumes "fst (fn k s) = Bailed e"
  shows "fst (retry fn r on_retry k s) = CallRejected e" "fst (snd (retry fn r on_retry k s)) = k"
  using assms by (cases r; cases "fn k s"; simp)+

lemma retry_failed_Suc:
  assumes "fn k s = (Failed e, s')"
  shows "retry fn (Suc r) on_retry k s = retry fn r on_retry (Suc k) (on_retry e s')"
  using assms by simp

lemma retry_failed_last:
  assumes "fst (fn k s) = Failed e"
  shows "fst (retry fn 0 on_retry k s) = CallRejected e" "fst (snd (retry fn 0 on_retry k s)) = k"
  using assms by (cases "fn k s"; simp)+

lemma attempt_not_ok:
  "attempt opts (FeedResponse False status ins) s =
     (if status < 500 then Bailed (EventsStatus status) else Failed (EventsStatus status),
      callOnOpenOnce s)"
  by (simp add: attempt_def Let_def)

lemma outcome_at_not_ok:
  assumes "feeds j = FeedResponse False status ins"
  shows "outcome_at opts feeds j =
     (if status < 500 then Bailed (EventsStatus status) else Failed (EventsStatus status))"
  using assms by (simp add: outcome_at_def attempt_not_ok)

lemma outcome_at_throws:
  assumes "feeds j = FeedThrows e"
  shows "outcome_at opts feeds j = Failed e"
  using assms by (simp add: outcome_at_def attempt_def)

lemma state_before_failed:
  assumes "outcome_at opts feeds (Suc m) = Failed e"
  shows "state_before opts feeds (Suc m)
           = onRetry opts e (snd (attempt opts (feeds (Suc m)) (state_before opts feeds m)))"
  using assms
  by (cases "attempt opts (feeds (Suc m)) (state_before opts feeds m)")
     (simp add: outcome_at_def)

lemma printEvents_at:
  assumes "m \<le> 4" "reached opts feeds (Suc m)"
  shows "printEvents opts feeds =
           retry (\<lambda>n. attempt opts (feeds n)) (4 - m) (onRetry opts) (Suc m)
             (state_before opts feeds m)"
  using assms
proof (induction m)
  case 0
  show ?case by (simp add: printEvents_def)
next
  case (Suc m)
  have r: "reached opts feeds (Suc m)"
    using Suc.prems(2) by (simp add: reached_def)
  from Suc.prems(2) obtain e where e: "outcome_at opts feeds (Suc m) = Failed e"
    unfolding reached_def by (metis Suc_le_mono le0 lessI One_nat_def)
  then obtain s' where a: "attempt opts (feeds (Suc m)) (state_before opts feeds m) = (Failed e, s')"
    by (cases "attempt opts (feeds (Suc m)) (state_before opts feeds m)")
       (simp add: outcome_at_def)
  have "4 - m = Suc (4 - Suc m)" using Suc.prems(1) by simp
  then have "retry (\<lambda>n. attempt opts (feeds n)) (4 - m) (onRetry opts) (Suc m)
             (state_before opts feeds m)
      = retry (\<lambda>n. attempt opts (feeds n)) (4 - Suc m) (onRetry opts) (Suc (Suc m))
          (onRetry opts e s')"
    using retry_failed_Suc[of "\<lambda>n. attempt opts (feeds n)" "Suc m" "state_before opts feeds m"
        e s' "4 - Suc m" "onRetry opts"] a
    by simp
  moreover have "state_before opts feeds (Suc m) = onRetry opts e s'"
    using a by simp
  ultimately show ?case using Suc.IH[OF _ r] Suc.prems(1) by simp
qed

lemma reached_Suc:
  assumes "reached opts feeds j" "outcome_at opts feeds j = Failed e"
  shows "reached opts feeds (Suc j)"
  using assms unfolding reached_def by (metis less_Suc_eq)

lemma run_bailed:
  assumes "1 \<le> j" "j \<le> 5" "reached opts feeds j" "outcome_at opts feeds j = Bailed e"
  shows "fst (printEvents opts feeds) = CallRejected e" "fst (snd (printEvents opts feeds)) = j"
proof -
  obtain m where m: "j = Suc m" "m \<le> 4" using assms(1,2) by (cases j) auto
  have "fst ((\<lambda>n. attempt opts (feeds n)) (Suc m) (state_before opts feeds m)) = Bailed e"
    using assms(4) m by (simp add: outcome_at_def)
  from retry_bailed[of "\<lambda>n. attempt opts (feeds n)" "Suc m" "state_before opts feeds m" e
      "4 - m" "onRetry opts", OF this] printEvents_at[OF m(2)] assms(3) m
  show "fst (printEvents opts feeds) = CallRejected e" "fst (snd (printEvents opts feeds)) = j"
    by simp_all
qed

lemma run_retried:
  assumes "1 \<le> j" "j \<le> 4" "reached opts feeds j" "outcome_at opts feeds j = Failed e"
  shows "j + 1 \<le> fst (snd (printEvents opts feeds))" "reached opts feeds (j + 1)"
    "last (logged (state_before opts feeds j)) = PollingErrorLine e"
proof -
  have r: "reached opts feeds (Suc j)" using reached_Suc[OF assms(3,4)] .
  then show "reached opts feeds (j + 1)" by simp
  from printEvents_at[OF assms(2) r] retry_attempts_ge[of "Suc j"]
  show "j + 1 \<le> fst (snd (printEvents opts feeds))" by simp
  obtain m where m: "j = Suc m" using assms(1) by (cases j) auto
  show "last (logged (state_before opts feeds j)) = PollingErrorLine e"
    using state_before_failed[of opts feeds m e] assms(4) m
    by (simp add: onRetry_def Let_def)
qed

lemma run_exhausted:
  assumes "reached opts feeds 5" "outcome_at opts feeds 5 = Failed e"
  shows "fst (printEvents opts feeds) = CallRejected e" "fst (snd (printEvents opts feeds)) = 5"
proof -
  have r: "reached opts feeds (Suc 4)" using assms(1) by (simp add: eval_nat_numeral)
  have "fst ((\<lambda>n. attempt opts (feeds n)) (Suc 4) (state_before opts feeds 4)) = Failed e"
    using assms(2) by (simp add: outcome_at_def eval_nat_numeral)
  from retry_failed_last[of "\<lambda>n. attempt opts (feeds n)" "Suc 4" "state_before opts feeds 4" e
      "onRetry opts", OF this] printEvents_at[OF _ r]
  show "fst (printEvents opts feeds) = CallRejected e" "fst (snd (printEvents opts feeds)) = 5"
    by simp_all
qed

text \<open>
  Claim C4. In every run, whatever went before (a fetch that threw, responses of 500
  or more, rejected streams): when attempt \<open>j\<close> is made and gets a non-ok response with
  a status below 500, the call rejects with the error of that status at attempt \<open>j\<close>
  and no further attempt is made (at \<open>j = 1\<close>: at once, with zero retries); when
  attempt \<open>j \<le> 4\<close> gets a non-ok response with a status of 500 or more, it is retried:
  attempt \<open>j + 1\<close> is made; and when the fifth attempt (the last of the retry budget)
  fails, with such a response or in any other way, its error is the one the call
  rejects with.
\<close>

theorem feed_status_policy:
  assumes "1 \<le> j" "j \<le> 5" "reached opts feeds j"
  shows "(feeds j = FeedResponse False status ins \<and> status < 500
          \<longrightarrow> fst (printEvents opts feeds) = CallRejected (EventsStatus status)
              \<and> fst (snd (printEvents opts feeds)) = j)
       \<and> (feeds j = FeedResponse False status ins \<and> 500 \<le> status \<and> j \<le> 4
          \<longrightarrow> j + 1 \<le> fst (snd (printEvents opts feeds)) \<and> reached opts feeds (j + 1))
       \<and> (feeds j = FeedResponse False status ins \<and> 500 \<le> status \<and> j = 5
          \<longrightarrow> fst (printEvents opts feeds) = CallRejected (EventsStatus status)
              \<and> fst (snd (printEvents opts feeds)) = 5)
       \<and> (j = 5 \<and> outcome_at opts feeds 5 = Failed e
          \<longrightarrow> fst (printEvents opts feeds) = CallRejected e
              \<and> fst (snd (printEvents opts feeds)) = 5)"
proof (intro conjI impI)
  assume a: "feeds j = FeedResponse False status ins \<and> status < 500"
  then have "outcome_at opts feeds j = Bailed (EventsStatus status)"
    by (simp add: outcome_at_not_ok)
  from run_bailed[OF assms this]
  show "fst (printEvents opts feeds) = CallRejected (EventsStatus status)"
    "fst (snd (printEvents opts feeds)) = j" .
next
  assume a: "feeds j = FeedResponse False status ins \<and> 500 \<le> status \<and> j \<le> 4"
  then have "outcome_at opts feeds j = Failed (EventsStatus status)"
    by (simp add: outcome_at_not_ok)
  from run_retried(1,2)[OF assms(1) _ assms(3) this] a
  show "j + 1 \<le> fst (snd (printEvents opts feeds))" "reached opts feeds (j + 1)"
    by simp_all
next
  assume a: "feeds j = FeedResponse False status ins \<and> 500 \<le> status \<and> j = 5"
  then have "feeds 5 = FeedResponse False status ins" "500 \<le> status" by auto
  from outcome_at_not_ok[of feeds 5 status ins opts, OF this(1)] this(2)
  have "outcome_at opts feeds 5 = Failed (EventsStatus status)" by simp
  from run_exhausted[OF _ this] assms(3) a
  show "fst (printEvents opts feeds) = CallRejected (EventsStatus status)"
    "fst (snd (printEvents opts feeds)) = 5"
    by simp_all
next
  assume a: "j = 5 \<and> outcome_at opts feeds 5 = Failed e"
  with run_exhausted[of opts feeds e] assms(3)
  show "fst (printEvents opts feeds) = CallRejected e" "fst (snd (printEvents opts feeds)) = 5"
    by simp_all
qed

lemma reached_all_5xx:
  assumes "\<And>n. \<exists>ins. feeds n = FeedResponse False (sts n) ins" "\<And>n. 500 \<le> sts n"
  shows "reached opts feeds j"
  unfolding reached_def
proof (intro allI impI)
  fix n
  obtain ins where "feeds n = FeedResponse False (sts n) ins" using assms(1) by blast
  from outcome_at_not_ok[of feeds n "sts n" ins opts, OF this] assms(2)[of n]
  show "\<exists>e. outcome_at opts feeds n = Failed e" by (simp add: not_less[symmetric])
qed

theorem feed_status_policy_witness:
  "reached (logs_options None) throws_then_404 2
   \<and> fst (printEvents (logs_options None) throws_then_404) = CallRejected (EventsStatus 404)
   \<and> fst (snd (printEvents (logs_options None) throws_then_404)) = 2
   \<and> fst (printEvents (logs_options None) (\<lambda>n. FeedResponse False 404 [])) = CallRejected (EventsStatus 404)
   \<and> fst (snd (printEvents (logs_options None) (\<lambda>n. FeedResponse False 404 []))) = 1
   \<and> 2 \<le> fst (snd (printEvents (logs_options None)
              (\<lambda>n. if n = 1 then FeedResponse False 503 [] else FeedResponse True 200 [StreamEnd])))
   \<and> fst (printEvents (logs_options None) (\<lambda>n. FeedResponse False (500 + n) []))
       = CallRejected (EventsStatus 505)
   \<and> fst (snd (printEvents (logs_options None) (\<lambda>n. FeedResponse False (500 + n) []))) = 5"
proof -
  have r1: "reached opts feeds 1" for opts feeds by (simp add: reached_def)
  have "outcome_at (logs_options None) throws_then_404 1 = Failed (Thrown ''net'')"
    by (rule outcome_at_throws) (simp add: throws_then_404_def)
  from reached_Suc[OF r1 this]
  have r2: "reached (logs_options None) throws_then_404 2" by (simp add: eval_nat_numeral)
  from feed_status_policy[where j = 2 and feeds = throws_then_404 and status = 404
      and ins = "[]" and opts = "logs_options None", OF _ _ r2]
  have a: "fst (printEvents (logs_options None) throws_then_404) = CallRejected (EventsStatus 404)
   \<and> fst (snd (printEvents (logs_options None) throws_then_404)) = 2"
    by (simp add: throws_then_404_def)
  from feed_status_policy[where j = 1 and feeds = "\<lambda>n. FeedResponse False 404 []" and status = 404
      and ins = "[]" and opts = "logs_options None", OF _ _ r1]
  have b: "fst (printEvents (logs_options None) (\<lambda>n. FeedResponse False 404 [])) = CallRejected (EventsStatus 404)
   \<and> fst (snd (printEvents (logs_options None) (\<lambda>n. FeedResponse False 404 []))) = 1"
    by simp
  from feed_status_policy[where j = 1
      and feeds = "\<lambda>n. if n = 1 then FeedResponse False 503 [] else FeedResponse True 200 [StreamEnd]"
      and status = 503 and ins = "[]" and opts = "logs_options None", OF _ _ r1]
  have c: "2 \<le> fst (snd (printEvents (logs_options None)
              (\<lambda>n. if n = 1 then FeedResponse False 503 [] else FeedResponse True 200 [StreamEnd])))"
    by simp
  have r5: "reached (logs_options None) (\<lambda>n. FeedResponse False (500 + n) []) 5"
    by (rule reached_all_5xx[where sts = "\<lambda>n. 500 + n"]) simp_all
  from feed_status_policy[where j = 5 and feeds = "\<lambda>n. FeedResponse False (500 + n) []"
      and status = 505 and ins = "[]" and opts = "logs_options None", OF _ _ r5]
  have d: "fst (printEvents (logs_options None) (\<lambda>n. FeedResponse False (500 + n) []))
       = CallRejected (EventsStatus 505)
   \<and> fst (snd (printEvents (logs_options None) (\<lambda>n. FeedResponse False (500 + n) []))) = 5"
    by simp
  from a b c d r2 show ?thesis by simp
qed

lemma deliver_after_finish:
  assumes "finishCalled s"
  shows "finishCalled (deliver opts i s) \<and> settled (deliver opts i s) = settled s"
  using assms
  by (auto simp: deliver_def onData_def onPoll_def onError_def finish_def stream_end_def
      startPoller_def callOnOpenOnce_funpow callOnOpenOnce_def Let_def
      split: stream_input.splits option.splits poll_result.splits sum.splits prod.splits)

lemma fold_after_finish:
  assumes "finishCalled s"
  shows "settled (fold (deliver opts) inputs s) = settled s"
  using assms
  by (induction inputs arbitrary: s) (auto simp: deliver_after_finish)

lemma onPoll_error:
  assumes "poll_error r = Some e"
  shows "onPoll opts r s = finish opts (Some e) (stream_end s)"
  using assms
  by (auto simp: onPoll_def poll_error_def split: poll_result.splits sum.splits if_splits)

lemma finish_stream_end:
  assumes "\<not> finishCalled s" "settled s = []"
  shows "stream_ended (finish opts e (stream_end s))"
    "settled (finish opts e (stream_end s)) = [outcome_of e]"
    "finishCalled (finish opts e (stream_end s))"
  using assms finish_first[of "stream_end s" opts e]
  by (simp_all add: stream_end_def)

lemma attempt_poll_error:
  assumes "polling (fold (deliver opts) pre (attempt_start opts s))"
    "\<not> finishCalled (fold (deliver opts) pre (attempt_start opts s))"
    "poll_error r = Some e"
  shows "fst (attempt opts (FeedResponse True status (pre @ PollReturns r # rest)) s) = Failed e"
proof -
  let ?s1 = "fold (deliver opts) pre (attempt_start opts s)"
  have "gate_ok ?s1" by (intro gate_ok_fold gate_ok_attempt_start)
  with assms(2) have s1: "settled ?s1 = []" by (simp add: gate_ok_def)
  let ?s2 = "deliver opts (PollReturns r) ?s1"
  have eq: "?s2 = finish opts (Some e) (stream_end (?s1\<lparr>polling := False\<rparr>))"
    using assms(1) by (simp add: deliver_def onPoll_error[OF assms(3)])
  have s2: "finishCalled ?s2" "settled ?s2 = [Rejected e]"
    unfolding eq using assms(2) s1 finish_stream_end[of "?s1\<lparr>polling := False\<rparr>" opts "Some e"]
    by (simp_all add: outcome_of_def)
  have "settled (fold (deliver opts) rest ?s2) = [Rejected e]"
    using fold_after_finish[OF s2(1)] s2(2) by simp
  then show ?thesis by (simp add: attempt_def Let_def)
qed

text \<open>
  Claim C5, as the code has it. In \<^verbatim>\<open>deploy\<close> mode an attempt starts a poll timer of 5000
  milliseconds, and a poll that finds another state than \<^verbatim>\<open>READY\<close> sets the next timer
  of 5000 milliseconds. When the polled state is \<^verbatim>\<open>READY\<close>, the stream is ended and the
  attempt resolves. When the poll errors (the fetch throws, the response is not ok, or
  its JSON fails), the stream is ended and the attempt is rejected with that error:
  whatever the listeners were called with before, an attempt whose poll returns with
  an error while it is in flight and the attempt unfinished fails with that error.
  That failure is retried like any other while retries remain: when it happens in
  attempt \<open>j \<le> 4\<close>, \<^verbatim>\<open>onRetry\<close> logs it as a polling error and attempt \<open>j + 1\<close> is made;
  only when it happens in the fifth attempt does the call reject with it.
\<close>

theorem poll_loop:
  assumes "mode opts = ''deploy''"
  shows "poller (attempt_start opts s0) = Some 5000
       \<and> (st \<noteq> ''READY''
          \<longrightarrow> onPoll opts (PollResponse True status (Inr st)) s = s\<lparr>poller := Some 5000\<rparr>)
       \<and> (\<not> finishCalled s \<and> settled s = []
          \<longrightarrow> stream_ended (onPoll opts (PollResponse True status (Inr ''READY'')) s)
              \<and> settled (onPoll opts (PollResponse True status (Inr ''READY'')) s) = [Resolved])
       \<and> (\<not> finishCalled s \<and> settled s = [] \<and> poll_error r = Some e
          \<longrightarrow> stream_ended (onPoll opts r s) \<and> settled (onPoll opts r s) = [Rejected e])
       \<and> (poll_error r = Some e
            \<and> feeds j = FeedResponse True status (pre @ PollReturns r # rest)
            \<and> polling (before_poll opts feeds j pre) \<and> \<not> finishCalled (before_poll opts feeds j pre)
          \<longrightarrow> outcome_at opts feeds j = Failed e)
       \<and> (poll_error r = Some e
            \<and> feeds j = FeedResponse True status (pre @ PollReturns r # rest)
            \<and> polling (before_poll opts feeds j pre) \<and> \<not> finishCalled (before_poll opts feeds j pre)
            \<and> 1 \<le> j \<and> j \<le> 4 \<and> reached opts feeds j
          \<longrightarrow> j + 1 \<le> fst (snd (printEvents opts feeds)) \<and> reached opts feeds (j + 1)
              \<and> last (logged (state_before opts feeds j)) = PollingErrorLine e)
       \<and> (poll_error r = Some e
            \<and> feeds j = FeedResponse True status (pre @ PollReturns r # rest)
            \<and> polling (before_poll opts feeds j pre) \<and> \<not> finishCalled (before_poll opts feeds j pre)
            \<and> j = 5 \<and> reached opts feeds j
          \<longrightarrow> fst (printEvents opts feeds) = CallRejected e
              \<and> fst (snd (printEvents opts feeds)) = 5)"
proof -
  have fails: "outcome_at opts feeds j = Failed e"
    if "poll_error r = Some e"
      "feeds j = FeedResponse True status (pre @ PollReturns r # rest)"
      "polling (before_poll opts feeds j pre)" "\<not> finishCalled (before_poll opts feeds j pre)"
    using that attempt_poll_error[of opts pre "state_before opts feeds (j - 1)" r e status rest]
    by (simp add: outcome_at_def before_poll_def)
  show ?thesis
  proof (intro conjI impI)
    show "poller (attempt_start opts s0) = Some 5000"
      using assms by (simp add: attempt_start_def startPoller_def Let_def)
  next
    assume "st \<noteq> ''READY''"
    then show "onPoll opts (PollResponse True status (Inr st)) s = s\<lparr>poller := Some 5000\<rparr>"
      by (simp add: onPoll_def startPoller_def)
  next
    assume a: "\<not> finishCalled s \<and> settled s = []"
    have "onPoll opts (PollResponse True status (Inr ''READY'')) s = finish opts None (stream_end s)"
      by (simp add: onPoll_def)
    with finish_stream_end[of s opts None] a
    show "stream_ended (onPoll opts (PollResponse True status (Inr ''READY'')) s)"
      "settled (onPoll opts (PollResponse True status (Inr ''READY'')) s) = [Resolved]"
      by (simp_all add: outcome_of_def)
  next
    assume a: "\<not> finishCalled s \<and> settled s = [] \<and> poll_error r = Some e"
    with finish_stream_end[of s opts "Some e"] onPoll_error[of r e opts s]
    show "stream_ended (onPoll opts r s)" "settled (onPoll opts r s) = [Rejected e]"
      by (simp_all add: outcome_of_def)
  next
    assume "poll_error r = Some e
            \<and> feeds j = FeedResponse True status (pre @ PollReturns r # rest)
            \<and> polling (before_poll opts feeds j pre) \<and> \<not> finishCalled (before_poll opts feeds j pre)"
    then show "outcome_at opts feeds j = Failed e" using fails by blast
  next
    assume a: "poll_error r = Some e
            \<and> feeds j = FeedResponse True status (pre @ PollReturns r # rest)
            \<and> polling (before_poll opts feeds j pre) \<and> \<not> finishCalled (before_poll opts feeds j pre)
            \<and> 1 \<le> j \<and> j \<le> 4 \<and> reached opts feeds j"
    then have f: "outcome_at opts feeds j = Failed e" using fails by blast
    from a have j: "1 \<le> j" "j \<le> 4" "reached opts feeds j" by simp_all
    from run_retried[OF j f]
    show "j + 1 \<le> fst (snd (printEvents opts feeds))" "reached opts feeds (j + 1)"
      "last (logged (state_before opts feeds j)) = PollingErrorLine e" .
  next
    assume a: "poll_error r = Some e
            \<and> feeds j = FeedResponse True status (pre @ PollReturns r # rest)
            \<and> polling (before_poll opts feeds j pre) \<and> \<not> finishCalled (before_poll opts feeds j pre)
            \<and> j = 5 \<and> reached opts feeds j"
    then have f: "outcome_at opts feeds j = Failed e" using fails by blast
    from a have j5: "j = 5" and rj: "reached opts feeds j" by blast+
    from rj f have "reached opts feeds 5" "outcome_at opts feeds 5 = Failed e"
      unfolding j5 by this+
    from run_exhausted[OF this]
    show "fst (printEvents opts feeds) = CallRejected e" "fst (snd (printEvents opts feeds)) = 5" .
  qed
qed

lemma before_poll_timer:
  assumes "mode opts = ''deploy''"
  shows "polling (before_poll opts feeds j [TimerFires])"
    "\<not> finishCalled (before_poll opts feeds j [TimerFires])"
  using assms
  by (simp_all add: before_poll_def deliver_def attempt_start_def startPoller_def Let_def)

lemma poll_always_fails_outcome:
  "outcome_at deploy_options poll_always_fails j = Failed (Thrown ''poll'')"
  using attempt_poll_error[of deploy_options "[TimerFires]"
      "state_before deploy_options poll_always_fails (j - 1)"
      "FetchThrows (Thrown ''poll'')" "Thrown ''poll''" 200 "[]"]
    before_poll_timer[of deploy_options poll_always_fails j]
  by (simp add: outcome_at_def before_poll_def poll_always_fails_def poll_error_def
      deploy_options_def)

theorem poll_loop_witness:
  "mode deploy_options = ''deploy''
   \<and> poller (attempt_start deploy_options initial) = Some 5000
   \<and> settled (onPoll deploy_options (PollResponse True 200 (Inr ''READY''))
        (attempt_start deploy_options initial)) = [Resolved]
   \<and> settled (onPoll deploy_options (PollResponse False 502 (Inr []))
        (attempt_start deploy_options initial)) = [Rejected (PollStatus 502)]
   \<and> onPoll deploy_options (PollResponse True 200 (Inr ''BUILDING'')) initial
       = initial\<lparr>poller := Some 5000\<rparr>
   \<and> reached deploy_options poll_always_fails 2
   \<and> outcome_at deploy_options poll_always_fails 2 = Failed (Thrown ''poll'')
   \<and> 3 \<le> fst (snd (printEvents deploy_options poll_always_fails))
   \<and> last (logged (state_before deploy_options poll_always_fails 2))
       = PollingErrorLine (Thrown ''poll'')
   \<and> reached deploy_options poll_always_fails 5
   \<and> fst (printEvents deploy_options poll_always_fails) = CallRejected (Thrown ''poll'')
   \<and> fst (snd (printEvents deploy_options poll_always_fails)) = 5"
proof -
  have m: "mode deploy_options = ''deploy''" by (simp add: deploy_options_def)
  have s: "\<not> finishCalled (attempt_start deploy_options initial)"
    "settled (attempt_start deploy_options initial) = []"
    by (simp_all add: attempt_start_def startPoller_def deploy_options_def initial_def)
  have p: "poll_error (PollResponse False 502 (Inr [])) = Some (PollStatus 502)"
    "poll_error (FetchThrows (Thrown ''poll'')) = Some (Thrown ''poll'')"
    by (simp_all add: poll_error_def)
  have r: "reached deploy_options poll_always_fails j" for j
    by (simp add: reached_def poll_always_fails_outcome)
  have f: "poll_always_fails j
      = FeedResponse True 200 ([TimerFires] @ PollReturns (FetchThrows (Thrown ''poll'')) # [])" for j
    by (simp add: poll_always_fails_def)
  note b = before_poll_timer[OF m, of poll_always_fails]
  from poll_loop[OF m, where s = "attempt_start deploy_options initial" and s0 = initial
      and r = "PollResponse False 502 (Inr [])" and e = "PollStatus 502" and status = 200] s p(1)
  have a: "poller (attempt_start deploy_options initial) = Some 5000
   \<and> settled (onPoll deploy_options (PollResponse True 200 (Inr ''READY''))
        (attempt_start deploy_options initial)) = [Resolved]
   \<and> settled (onPoll deploy_options (PollResponse False 502 (Inr []))
        (attempt_start deploy_options initial)) = [Rejected (PollStatus 502)]"
    by simp
  from poll_loop[OF m, where s = initial and st = "''BUILDING''" and status = 200
      and r = "FetchThrows (Thrown ''poll'')" and e = "Thrown ''poll''"
      and feeds = poll_always_fails and j = 2 and pre = "[TimerFires]" and rest = "[]"]
    p(2) f[of 2] b[of 2] r[of 2]
  have c: "onPoll deploy_options (PollResponse True 200 (Inr ''BUILDING'')) initial
       = initial\<lparr>poller := Some 5000\<rparr>
   \<and> outcome_at deploy_options poll_always_fails 2 = Failed (Thrown ''poll'')
   \<and> 3 \<le> fst (snd (printEvents deploy_options poll_always_fails))
   \<and> last (logged (state_before deploy_options poll_always_fails 2))
       = PollingErrorLine (Thrown ''poll'')"
    by simp
  from poll_loop[OF m, where status = 200
      and r = "FetchThrows (Thrown ''poll'')" and e = "Thrown ''poll''"
      and feeds = poll_always_fails and j = 5 and pre = "[TimerFires]" and rest = "[]"]
    p(2) f[of 5] b[of 5] r[of 5]
  have d: "fst (printEvents deploy_options poll_always_fails) = CallRejected (Thrown ''poll'')
   \<and> fst (snd (printEvents deploy_options poll_always_fails)) = 5"
    by simp
  from a c d m r[of 2] r[of 5] show ?thesis by simp
qed

lemma limit_Some: "findOpts_limit opts = Some n \<Longrightarrow> 0 < n \<Longrightarrow> limit opts = enat n"
  by (simp add: limit_def)

lemma deliver_data: "deliver opts (StreamData d) s = onData opts d s"
  by (simp add: deliver_def)

lemma past_limit_run:
  assumes lim: "limit opts = enat n" and "n \<le> counter s" and "\<forall>d\<in>set ds. normal d"
  shows "printed (fold (deliver opts) (map StreamData ds) s) = printed s @ ds
       \<and> settled (fold (deliver opts) (map StreamData ds) s) = settled s
       \<and> stream_ended (fold (deliver opts) (map StreamData ds) s) = stream_ended s"
  using assms(2-)
proof (induction ds arbitrary: s)
  case Nil
  then show ?case by simp
next
  case (Cons d ds)
  have miss: "enat (Suc (counter s)) \<noteq> limit opts" using Cons.prems(1) by (simp add: lim)
  have nd: "event d \<noteq> ''build-complete''" using Cons.prems(2) by (simp add: normal_def)
  note h = onData_normal[OF miss nd]
  have "printed (fold (deliver opts) (map StreamData ds) (onData opts d s))
          = printed (onData opts d s) @ ds
       \<and> settled (fold (deliver opts) (map StreamData ds) (onData opts d s))
          = settled (onData opts d s)
       \<and> stream_ended (fold (deliver opts) (map StreamData ds) (onData opts d s))
          = stream_ended (onData opts d s)"
    using Cons.prems h by (intro Cons.IH) auto
  then show ?case using h by (simp add: deliver_data)
qed

lemma limit_run:
  assumes lim: "limit opts = enat n"
    and "\<not> finishCalled s" "counter s < n" "n - counter s \<le> length ds"
    and "\<forall>d\<in>set ds. normal d"
  shows "printed (fold (deliver opts) (map StreamData ds) s)
           = printed s @ take (n - 1 - counter s) ds @ drop (n - counter s) ds
       \<and> settled (fold (deliver opts) (map StreamData ds) s) = settled s @ [Resolved]
       \<and> stream_ended (fold (deliver opts) (map StreamData ds) s)"
  using assms(2-)
proof (induction ds arbitrary: s)
  case Nil
  then show ?case by simp
next
  case (Cons d ds)
  have step: "fold (deliver opts) (map StreamData (d # ds)) s
      = fold (deliver opts) (map StreamData ds) (onData opts d s)"
    by (simp add: deliver_data)
  show ?case
  proof (cases "Suc (counter s) = n")
    case True
    then have hit: "enat (Suc (counter s)) = limit opts" by (simp add: lim)
    note h = onData_limit[OF hit Cons.prems(1), of d]
    have c: "n \<le> counter (onData opts d s)"
      using hit True Cons.prems(1)
      by (simp add: onData_def Let_def finish_def callOnOpenOnce_def stream_end_def)
    from past_limit_run[OF lim c, of ds] Cons.prems(4)
    have "printed (fold (deliver opts) (map StreamData ds) (onData opts d s))
            = printed (onData opts d s) @ ds
       \<and> settled (fold (deliver opts) (map StreamData ds) (onData opts d s))
            = settled (onData opts d s)
       \<and> stream_ended (fold (deliver opts) (map StreamData ds) (onData opts d s))
            = stream_ended (onData opts d s)"
      by simp
    moreover have "n - counter s = Suc 0" "n - 1 - counter s = 0" using True by auto
    ultimately show ?thesis unfolding step using h by simp
  next
    case False
    then have miss: "enat (Suc (counter s)) \<noteq> limit opts" by (simp add: lim)
    have nd: "event d \<noteq> ''build-complete''" using Cons.prems(4) by (simp add: normal_def)
    note h = onData_normal[OF miss nd]
    let ?s1 = "onData opts d s"
    have "printed (fold (deliver opts) (map StreamData ds) ?s1)
            = printed ?s1 @ take (n - 1 - counter ?s1) ds @ drop (n - counter ?s1) ds
       \<and> settled (fold (deliver opts) (map StreamData ds) ?s1) = settled ?s1 @ [Resolved]
       \<and> stream_ended (fold (deliver opts) (map StreamData ds) ?s1)"
      using Cons.prems False h by (intro Cons.IH) auto
    moreover have "take (n - 1 - counter s) (d # ds) = d # take (n - 1 - Suc (counter s)) ds"
    proof -
      have "n - 1 - counter s = Suc (n - 1 - Suc (counter s))"
        using Cons.prems(2) False by arith
      then show ?thesis by simp
    qed
    moreover have "drop (n - counter s) (d # ds) = drop (n - Suc (counter s)) ds"
    proof -
      have "n - counter s = Suc (n - Suc (counter s))"
        using Cons.prems(2) by arith
      then show ?thesis by simp
    qed
    ultimately show ?thesis unfolding step using h by simp
  qed
qed

text \<open>
  With a finite limit \<open>n \<ge> 1\<close> and a feed that hands at least \<open>n\<close> normal records to
  \<^verbatim>\<open>onData\<close>, the call resolves after one attempt and every record but the \<open>n\<close>-th has
  been forwarded: the \<open>n - 1\<close> records before it, and the records that still reach
  \<^verbatim>\<open>onData\<close> after it. The \<open>n\<close>-th record is never forwarded.
\<close>

theorem limit_forwards_all_but_last:
  assumes "findOpts_limit opts = Some n" "0 < n" "n \<le> length ds" "\<forall>d\<in>set ds. normal d"
  shows "fst (printEvents opts (\<lambda>k. FeedResponse True status (map StreamData ds))) = CallResolved
       \<and> printed (snd (snd (printEvents opts (\<lambda>k. FeedResponse True status (map StreamData ds)))))
           = take (n - 1) ds @ drop n ds"
proof -
  let ?s0 = "attempt_start opts initial"
  have s0: "\<not> finishCalled ?s0" "counter ?s0 = 0" "printed ?s0 = []"
    "settled ?s0 = []"
    by (simp_all add: attempt_start_def startPoller_def initial_def Let_def)
  from limit_run[OF limit_Some[OF assms(1,2)] s0(1), of ds] assms s0
  have r: "printed (fold (deliver opts) (map StreamData ds) ?s0) = take (n - 1) ds @ drop n ds"
    "settled (fold (deliver opts) (map StreamData ds) ?s0) = [Resolved]"
    by simp_all
  then have "attempt opts (FeedResponse True status (map StreamData ds)) initial
      = (Fulfilled, fold (deliver opts) (map StreamData ds) ?s0)"
    by (simp add: attempt_def Let_def)
  then show ?thesis using r(1) by (simp add: printEvents_def eval_nat_numeral)
qed

theorem limit_forwards_all_but_last_witness:
  "findOpts_limit (logs_options (Some 3)) = Some 3
   \<and> normal (line ''1'') \<and> normal (line ''2'') \<and> normal (line ''3'') \<and> normal (line ''4'')
   \<and> printed (snd (snd (printEvents (logs_options (Some 3))
        (\<lambda>k. FeedResponse True 200
           (map StreamData [line ''1'', line ''2'', line ''3'', line ''4''])))))
       = [line ''1'', line ''2'', line ''4'']"
proof -
  have n: "normal (line ''1'')" "normal (line ''2'')" "normal (line ''3'')" "normal (line ''4'')"
    by (simp_all add: normal_def line_def)
  have l: "findOpts_limit (logs_options (Some 3)) = Some 3" by (simp add: logs_options_def)
  from limit_forwards_all_but_last[OF l, of "[line ''1'', line ''2'', line ''3'', line ''4'']" 200] n
  have "printed (snd (snd (printEvents (logs_options (Some 3))
        (\<lambda>k. FeedResponse True 200
           (map StreamData [line ''1'', line ''2'', line ''3'', line ''4''])))))
       = take 2 [line ''1'', line ''2'', line ''3'', line ''4'']
         @ drop 3 [line ''1'', line ''2'', line ''3'', line ''4'']"
    by simp
  with n l show ?thesis by (simp add: eval_nat_numeral)
qed
section \<open>Properties of \<open>ensureRepoLink\<close>\<close>

text \<open>
  Whatever the user selects, the manifest that is written lists the fetched projects.
\<close>

lemma ensureRepoLink_written:
  assumes "ensureRepoLink env yes overwrite = Inr out" "written out = Some (path, cfg)"
  shows "projects cfg = map (config_of env) (concat (fetched env))"
  using assms
  by (auto simp: ensureRepoLink_def Let_def split: option.splits if_splits)

text \<open>
  Claim C9 at the example: the user selects the existing project \<^verbatim>\<open>api\<close> and the new
  project \<^verbatim>\<open>web\<close>, which is created; the manifest written records \<^verbatim>\<open>api\<close> and
  \<^verbatim>\<open>docs\<close>, the projects fetched from the remote, and not the projects chosen.
\<close>

theorem ensureRepoLink_manifest_example:
  "\<exists>out cfg. ensureRepoLink example_link_env False False = Inr out
      \<and> written out = Some (''/repo/.vercel/repo.json'', cfg)
      \<and> map cfg_id (projects cfg) = [''prj_api'', ''prj_docs'']
      \<and> map project_id (selected_after out) = [''prj_api'', ''prj_new'']"
  by (simp add: ensureRepoLink_def example_link_env_def Let_def create_selected_def config_of_def
      api_project_def docs_project_def rootDirectory_or_empty_def)


end
